theory Spec2Isabelle
  imports Complex_Main "HOL-Library.Log_Nat"
begin

section \<open>The Martingale process of martingale_simulation.py\<close>

subsection \<open>The arithmetic of the numbers\<close>

text \<open>
  The balance and the bets are Python numbers, and Python computes with them in the
  arithmetic of their type: exactly when the caller passes ints, rounded to the nearest
  double when it passes floats, as \<^verbatim>\<open>main\<close> does. The model keeps the numbers
  as reals and takes the arithmetic as a function \<open>rnd\<close> that every result of
  \<^verbatim>\<open>+\<close>, \<^verbatim>\<open>-\<close> and \<^verbatim>\<open>*\<close> goes through. Comparisons are exact in both.
\<close>

text \<open>Ints: no rounding.\<close>

definition exact :: "real \<Rightarrow> real" where
  "exact x = x"

text \<open>
  Floats: a double has a 53-bit significand, and a result is rounded to the nearest
  double, to the one with the even significand when two are equally near. With
  \<open>2 ^ e \<le> \<bar>x\<bar> < 2 ^ (e + 1)\<close> the doubles around \<open>x\<close> are the multiples of
  \<open>2 ^ (e - 52)\<close>; below \<open>2 ^ (- 1022)\<close> they are the multiples of \<open>2 ^ (- 1074)\<close>.
  Results of magnitude \<open>2 ^ 1024\<close> and above, which Python turns into \<^verbatim>\<open>inf\<close>, are
  not part of the model.
\<close>

definition round_half_even :: "real \<Rightarrow> int" where
  "round_half_even y =
     (let f = \<lfloor>y\<rfloor>; d = y - of_int f
      in if d < 1 / 2 then f else if 1 / 2 < d then f + 1 else if even f then f else f + 1)"

definition binade :: "real \<Rightarrow> int" where
  "binade x = (if 1 \<le> \<bar>x\<bar> then bitlen \<lfloor>\<bar>x\<bar>\<rfloor> - 1 else - bitlen (\<lceil>1 / \<bar>x\<bar>\<rceil> - 1))"

definition scale_round :: "int \<Rightarrow> real \<Rightarrow> real" where
  "scale_round q x =
     (if 0 \<le> q then of_int (round_half_even (x / 2 ^ nat q)) * 2 ^ nat q
      else of_int (round_half_even (x * 2 ^ nat (- q))) / 2 ^ nat (- q))"

definition double_round :: "real \<Rightarrow> real" where
  "double_round x = (if x = 0 then 0 else scale_round (max (binade x) (- 1022) - 52) x)"

subsection \<open>The class\<close>

text \<open>
  The class \<^verbatim>\<open>Martingale\<close> keeps four construction parameters and four mutable
  fields. The counter \<^verbatim>\<open>rounds_played\<close> starts at 0 and is only ever incremented,
  so it is a natural number.
\<close>

record martingale =
  initial_balance :: real
  initial_bet :: real
  win_prob :: real
  table_limit :: real
  balance :: real
  current_bet :: real
  balance_history :: "real list"
  rounds_played :: nat

text \<open>
  \<^verbatim>\<open>reset\<close> (lines 37-42) assigns the four mutable fields from the parameters.
\<close>

definition reset :: "martingale \<Rightarrow> martingale" where
  "reset m = m\<lparr>balance := initial_balance m,
               current_bet := initial_bet m,
               balance_history := [initial_balance m],
               rounds_played := 0\<rparr>"

text \<open>
  \<^verbatim>\<open>__init__\<close> (lines 14-33) stores the four parameters and calls \<^verbatim>\<open>reset\<close>.
  In Python the mutable attributes do not exist before that call; the record needs some
  value there, and \<open>reset\<close> overwrites every one of them.
\<close>

definition Martingale :: "real \<Rightarrow> real \<Rightarrow> real \<Rightarrow> real \<Rightarrow> martingale" where
  "Martingale ib ibet wp tlim =
     reset \<lparr>initial_balance = ib, initial_bet = ibet, win_prob = wp, table_limit = tlim,
            balance = 0, current_bet = 0, balance_history = [], rounds_played = 0\<rparr>"

subsection \<open>The random source\<close>

text \<open>
  \<^verbatim>\<open>random.random()\<close> reads the process-wide generator and advances it. The state
  of the generator is the sequence of draws it is still going to produce: a call returns
  the head of the sequence and leaves the tail behind.
\<close>

type_synonym rng = "nat \<Rightarrow> real"

definition random_random :: "rng \<Rightarrow> real \<times> rng" where
  "random_random r = (r 0, \<lambda>n. r (Suc n))"

text \<open>A generator that returns the same number at every call, for concrete runs.\<close>

definition constant_rng :: "real \<Rightarrow> rng" where
  "constant_rng x = (\<lambda>n. x)"

text \<open>A generator that returns the numbers of a list, then the same number for ever.\<close>

definition list_rng :: "real list \<Rightarrow> real \<Rightarrow> rng" where
  "list_rng xs x = (\<lambda>n. if n < length xs then xs ! n else x)"

subsection \<open>The round loop of simulate\<close>

text \<open>The condition of the \<^verbatim>\<open>while\<close> at line 49.\<close>

definition loop_cond :: "martingale \<Rightarrow> bool" where
  "loop_cond m \<longleftrightarrow> balance m \<ge> current_bet m \<and> table_limit m \<ge> current_bet m"

text \<open>
  The body of the loop (lines 51-61) for a given draw: stake the bet, settle the trial,
  append the balance to the history, count the round. Line 54 computes the product
  \<^verbatim>\<open>2 * self.current_bet\<close> first and adds it to the balance that line 51 left.
\<close>

definition play_round :: "(real \<Rightarrow> real) \<Rightarrow> real \<Rightarrow> martingale \<Rightarrow> martingale" where
  "play_round rnd draw m =
     (let m1 = m\<lparr>balance := rnd (balance m - current_bet m)\<rparr>;
          m2 = (if draw \<le> win_prob m1
                then (let m' = m1\<lparr>balance := rnd (balance m1 + rnd (2 * current_bet m1))\<rparr>
                      in m'\<lparr>current_bet := initial_bet m'\<rparr>)
                else m1\<lparr>current_bet := rnd (current_bet m1 * 2)\<rparr>);
          m3 = m2\<lparr>balance_history := balance_history m2 @ [balance m2]\<rparr>
      in m3\<lparr>rounds_played := rounds_played m3 + 1\<rparr>)"

text \<open>The body together with the generator it draws from.\<close>

definition loop_body :: "(real \<Rightarrow> real) \<Rightarrow> martingale \<times> rng \<Rightarrow> martingale \<times> rng" where
  "loop_body rnd s =
     (case random_random (snd s) of (draw, r') \<Rightarrow> (play_round rnd draw (fst s), r'))"

text \<open>
  \<^verbatim>\<open>simulate\<close> (lines 46-64). The loop has no round cap, so it may run for ever:
  \<open>None\<close> is a run that never returns, \<open>Some\<close> carries the object that is returned
  and the generator as the run leaves it.
\<close>

partial_function (option) simulate ::
    "(real \<Rightarrow> real) \<Rightarrow> martingale \<Rightarrow> rng \<Rightarrow> (martingale \<times> rng) option" where
  "simulate rnd m r =
     (if loop_cond m then (case loop_body rnd (m, r) of (m', r') \<Rightarrow> simulate rnd m' r')
      else Some (m, r))"

text \<open>
  The same loop cut off after at most \<open>n\<close> passes: the state in which the loop is after
  \<open>n\<close> rounds, or the state in which it stopped if it stopped earlier.
\<close>

primrec run_rounds :: "(real \<Rightarrow> real) \<Rightarrow> nat \<Rightarrow> martingale \<times> rng \<Rightarrow> martingale \<times> rng" where
  "run_rounds rnd 0 s = s"
| "run_rounds rnd (Suc n) s =
     (if loop_cond (fst s) then run_rounds rnd n (loop_body rnd s) else s)"

subsection \<open>The ensemble driver\<close>

text \<open>
  \<^verbatim>\<open>run_simulations\<close> (lines 89-98) is a list comprehension over
  \<^verbatim>\<open>range(sim_count)\<close>: each pass constructs a process and runs it, in order, on the
  shared generator. A run that never returns keeps the comprehension from returning.
\<close>

primrec comprehension ::
    "(real \<Rightarrow> real) \<Rightarrow> real \<Rightarrow> real \<Rightarrow> real \<Rightarrow> real \<Rightarrow> nat \<Rightarrow> rng \<Rightarrow>
     (martingale list \<times> rng) option" where
  "comprehension rnd ib ibet wp tlim 0 r = Some ([], r)"
| "comprehension rnd ib ibet wp tlim (Suc k) r =
     (case simulate rnd (Martingale ib ibet wp tlim) r of
        None \<Rightarrow> None
      | Some (m, r') \<Rightarrow>
          (case comprehension rnd ib ibet wp tlim k r' of
             None \<Rightarrow> None
           | Some (ms, r'') \<Rightarrow> Some (m # ms, r'')))"

text \<open>\<^verbatim>\<open>range(sim_count)\<close> is empty for a count below 1.\<close>

definition run_simulations ::
    "(real \<Rightarrow> real) \<Rightarrow> real \<Rightarrow> real \<Rightarrow> real \<Rightarrow> real \<Rightarrow> int \<Rightarrow> rng \<Rightarrow>
     (martingale list \<times> rng) option" where
  "run_simulations rnd ib ibet wp tlim sim_count r =
     comprehension rnd ib ibet wp tlim (nat sim_count) r"

subsection \<open>Notions the properties are stated with\<close>

text \<open>
  What the proofs need of an arithmetic: of two non-negative exact results the larger does
  not round to the smaller number, zero is not rounded, and the double of a number of the type is a number of the
  type. A number of the type is one that rounding leaves alone; the parameters that a
  caller passes are such numbers.
\<close>

definition rounding :: "(real \<Rightarrow> real) \<Rightarrow> bool" where
  "rounding rnd \<longleftrightarrow>
     (\<forall>x y. 0 \<le> x \<and> x \<le> y \<longrightarrow> rnd x \<le> rnd y) \<and> rnd 0 = 0 \<and>
     (\<forall>x. rnd x = x \<longrightarrow> rnd (x * 2) = x * 2)"

text \<open>
  The invariant of the history: one entry per round played plus the initial one, and the
  first entry is the initial balance. A list of that length is not empty, so
  \<^verbatim>\<open>balance_history[0]\<close> does not raise.
\<close>

definition history_inv :: "martingale \<Rightarrow> bool" where
  "history_inv m \<longleftrightarrow>
     length (balance_history m) = rounds_played m + 1 \<and> balance_history m ! 0 = initial_balance m"

text \<open>
  The number of losses in a row that end with round \<open>n\<close>, counted back to the last win
  or to the start: round \<open>k + 1\<close> takes the draw \<open>r k\<close> and is won when that draw is
  at most the win probability.
\<close>

primrec consecutive_losses :: "real \<Rightarrow> rng \<Rightarrow> nat \<Rightarrow> nat" where
  "consecutive_losses wp r 0 = 0"
| "consecutive_losses wp r (Suc n) = (if r n \<le> wp then 0 else Suc (consecutive_losses wp r n))"

text \<open>What holds in every state a reset process passes through, in any arithmetic.\<close>

definition track :: "martingale \<Rightarrow> rng \<Rightarrow> martingale \<times> rng \<Rightarrow> bool" where
  "track m r s \<longleftrightarrow>
     snd s = (\<lambda>k. r (rounds_played (fst s) + k)) \<and>
     length (balance_history (fst s)) = rounds_played (fst s) + 1 \<and>
     last (balance_history (fst s)) = balance (fst s) \<and>
     balance_history (fst s) ! 0 = initial_balance m \<and>
     initial_balance (fst s) = initial_balance m \<and>
     initial_bet (fst s) = initial_bet m \<and>
     win_prob (fst s) = win_prob m \<and>
     table_limit (fst s) = table_limit m"

text \<open>The bet in such a state, in an arithmetic that doubles without rounding.\<close>

definition bet_track :: "martingale \<Rightarrow> rng \<Rightarrow> martingale \<times> rng \<Rightarrow> bool" where
  "bet_track m r s \<longleftrightarrow>
     track m r s \<and>
     current_bet (fst s) =
       initial_bet m * 2 ^ consecutive_losses (win_prob m) r (rounds_played (fst s))"

section \<open>Basic facts\<close>

lemma reset_fields:
  "initial_balance (reset m) = initial_balance m"
  "initial_bet (reset m) = initial_bet m"
  "win_prob (reset m) = win_prob m"
  "table_limit (reset m) = table_limit m"
  "balance (reset m) = initial_balance m"
  "current_bet (reset m) = initial_bet m"
  "balance_history (reset m) = [initial_balance m]"
  "rounds_played (reset m) = 0"
  by (simp_all add: reset_def)

lemma Martingale_fields:
  "initial_balance (Martingale ib ibet wp tlim) = ib"
  "initial_bet (Martingale ib ibet wp tlim) = ibet"
  "win_prob (Martingale ib ibet wp tlim) = wp"
  "table_limit (Martingale ib ibet wp tlim) = tlim"
  "balance (Martingale ib ibet wp tlim) = ib"
  "current_bet (Martingale ib ibet wp tlim) = ibet"
  "balance_history (Martingale ib ibet wp tlim) = [ib]"
  "rounds_played (Martingale ib ibet wp tlim) = 0"
  by (simp_all add: Martingale_def reset_def)

subsection \<open>The loop and its bounded unrolling\<close>

lemma loop_body_eq: "loop_body rnd (m, r) = (play_round rnd (r 0) m, \<lambda>n. r (Suc n))"
  by (simp add: loop_body_def random_random_def)

lemma simulate_unfold:
  "simulate rnd m r = (if loop_cond m then simulate rnd (play_round rnd (r 0) m) (\<lambda>n. r (Suc n)) else Some (m, r))"
  by (subst simulate.simps) (simp add: loop_body_eq)

lemma run_rounds_snoc:
  "run_rounds rnd (Suc n) s =
     (if loop_cond (fst (run_rounds rnd n s)) then loop_body rnd (run_rounds rnd n s) else run_rounds rnd n s)"
proof (induction n arbitrary: s)
  case 0
  show ?case by simp
next
  case (Suc n)
  show ?case
  proof (cases "loop_cond (fst s)")
    case True
    then show ?thesis using Suc.IH [of "loop_body rnd s"] by simp
  next
    case False
    then show ?thesis by simp
  qed
qed

lemma run_rounds_stopped:
  "\<not> loop_cond (fst (run_rounds rnd k s)) \<Longrightarrow> run_rounds rnd (k + d) s = run_rounds rnd k s"
  by (induction d) (simp_all add: run_rounds_snoc del: run_rounds.simps)

lemma run_rounds_stays_stopped:
  "\<not> loop_cond (fst (run_rounds rnd k s)) \<Longrightarrow> k \<le> n \<Longrightarrow> run_rounds rnd n s = run_rounds rnd k s"
  using run_rounds_stopped [of rnd k s "n - k"] by simp

lemma loop_cond_earlier:
  "loop_cond (fst (run_rounds rnd n s)) \<Longrightarrow> k \<le> n \<Longrightarrow> loop_cond (fst (run_rounds rnd k s))"
  using run_rounds_stays_stopped [of rnd k s n] by (cases "loop_cond (fst (run_rounds rnd k s))") auto

lemma simulate_run_rounds:
  "simulate rnd m r = (case run_rounds rnd n (m, r) of (m', r') \<Rightarrow> simulate rnd m' r')"
proof (induction n arbitrary: m r)
  case 0
  show ?case by simp
next
  case (Suc n)
  show ?case
  proof (cases "loop_cond m")
    case True
    then have "simulate rnd m r = (case loop_body rnd (m, r) of (m', r') \<Rightarrow> simulate rnd m' r')"
      by (subst simulate.simps) simp
    also have "\<dots> = (case run_rounds rnd n (loop_body rnd (m, r)) of (m', r') \<Rightarrow> simulate rnd m' r')"
      using Suc.IH [of "fst (loop_body rnd (m, r))" "snd (loop_body rnd (m, r))"]
      by (simp add: case_prod_beta)
    finally show ?thesis using True by simp
  next
    case False
    then show ?thesis by simp
  qed
qed

lemma simulate_stops:
  assumes "\<not> loop_cond (fst (run_rounds rnd n (m, r)))"
  shows "simulate rnd m r = Some (run_rounds rnd n (m, r))"
proof -
  obtain m' r' where s: "run_rounds rnd n (m, r) = (m', r')" by (cases "run_rounds rnd n (m, r)")
  with assms have "\<not> loop_cond m'" by simp
  then have "simulate rnd m' r' = Some (m', r')" by (subst simulate.simps) simp
  then show ?thesis using simulate_run_rounds [of rnd m r n] s by simp
qed

lemma simulate_Some_stopped:
  assumes "simulate rnd m r = Some s'"
  shows "\<exists>n. s' = run_rounds rnd n (m, r) \<and> \<not> loop_cond (fst s')"
proof (rule simulate.raw_induct
    [where P = "\<lambda>rnd m r s'. \<exists>n. s' = run_rounds rnd n (m, r) \<and> \<not> loop_cond (fst s')",
      OF _ assms])
  fix sim :: "(real \<Rightarrow> real) \<Rightarrow> martingale \<Rightarrow> rng \<Rightarrow> (martingale \<times> rng) option"
    and rnd m r s'
  assume IH: "\<And>rnd m r s'. sim rnd m r = Some s' \<Longrightarrow>
                 \<exists>n. s' = run_rounds rnd n (m, r) \<and> \<not> loop_cond (fst s')"
    and step: "(if loop_cond m then case loop_body rnd (m, r) of (m', r') \<Rightarrow> sim rnd m' r'
                else Some (m, r)) = Some s'"
  show "\<exists>n. s' = run_rounds rnd n (m, r) \<and> \<not> loop_cond (fst s')"
  proof (cases "loop_cond m")
    case True
    with step have "sim rnd (fst (loop_body rnd (m, r))) (snd (loop_body rnd (m, r))) = Some s'"
      by (simp add: case_prod_beta)
    from IH [OF this] obtain n
      where n: "s' = run_rounds rnd n (loop_body rnd (m, r))" "\<not> loop_cond (fst s')"
      by auto
    from n True have "s' = run_rounds rnd (Suc n) (m, r) \<and> \<not> loop_cond (fst s')" by simp
    then show ?thesis by blast
  next
    case False
    with step have "s' = run_rounds rnd 0 (m, r) \<and> \<not> loop_cond (fst s')" by auto
    then show ?thesis by blast
  qed
qed

lemma simulate_None:
  "(\<And>n. loop_cond (fst (run_rounds rnd n (m, r)))) \<Longrightarrow> simulate rnd m r = None"
  using simulate_Some_stopped [of rnd m r] by (cases "simulate rnd m r") auto

subsection \<open>Arithmetics\<close>

lemma rounding_exact: "rounding exact"
  by (simp add: rounding_def exact_def)

lemma rounding_mono: "rounding rnd \<Longrightarrow> 0 \<le> x \<Longrightarrow> x \<le> y \<Longrightarrow> rnd x \<le> rnd y"
  by (simp add: rounding_def)

lemma rounding_nonneg: "rounding rnd \<Longrightarrow> 0 \<le> x \<Longrightarrow> 0 \<le> rnd x"
  using rounding_mono [of rnd 0 x] by (simp add: rounding_def)

lemma rounding_double:
  assumes "rounding rnd" "rnd x = x"
  shows "rnd (x * 2 ^ k) = x * 2 ^ k"
proof (induction k)
  case 0
  show ?case using assms(2) by simp
next
  case (Suc k)
  from assms(1) have "\<forall>y. rnd y = y \<longrightarrow> rnd (y * 2) = y * 2" by (simp add: rounding_def)
  with Suc have "rnd (x * 2 ^ k * 2) = x * 2 ^ k * 2" by blast
  moreover have "x * 2 ^ Suc k = x * 2 ^ k * 2" by simp
  ultimately show ?case by (simp only:)
qed

subsection \<open>Rounding to a double\<close>

lemma scale_round_powi:
  "scale_round q x = of_int (round_half_even (x / 2 powi q)) * 2 powi q"
  by (simp add: scale_round_def power_int_def field_simps power_inverse)

lemma round_half_even_of_int: "round_half_even (of_int n) = n"
  by (simp add: round_half_even_def)

lemma round_half_even_cases:
  "round_half_even y = \<lfloor>y\<rfloor> \<or> round_half_even y = \<lfloor>y\<rfloor> + 1"
  by (simp add: round_half_even_def Let_def)

lemma round_half_even_ge_floor: "\<lfloor>y\<rfloor> \<le> round_half_even y"
  using round_half_even_cases [of y] by auto

lemma round_half_even_le_floor: "round_half_even y \<le> \<lfloor>y\<rfloor> + 1"
  using round_half_even_cases [of y] by auto

lemma round_half_even_mono:
  assumes "x \<le> y"
  shows "round_half_even x \<le> round_half_even y"
proof (cases "\<lfloor>x\<rfloor> = \<lfloor>y\<rfloor>")
  case True
  then have "x - of_int \<lfloor>x\<rfloor> \<le> y - of_int \<lfloor>y\<rfloor>" using assms by simp
  then show ?thesis using True by (auto simp add: round_half_even_def Let_def)
next
  case False
  then have "\<lfloor>x\<rfloor> < \<lfloor>y\<rfloor>" using floor_mono [OF assms] by simp
  then have "\<lfloor>x\<rfloor> + 1 \<le> \<lfloor>y\<rfloor>" by simp
  then show ?thesis
    using round_half_even_le_floor [of x] round_half_even_ge_floor [of y] by linarith
qed

lemma binade_bounds:
  assumes "x \<noteq> 0"
  shows "2 powi binade x \<le> \<bar>x\<bar> \<and> \<bar>x\<bar> < 2 powi (binade x + 1)"
proof (cases "1 \<le> \<bar>x\<bar>")
  case True
  let ?n = "\<lfloor>\<bar>x\<bar>\<rfloor>"
  have n: "0 < ?n" using True by simp
  have b: "binade x = bitlen ?n - 1" using True by (simp add: binade_def)
  from bitlen_bounds [OF n] have lo: "2 ^ nat (bitlen ?n - 1) \<le> ?n" and hi: "?n < 2 ^ nat (bitlen ?n)"
    by simp_all
  have pos: "1 \<le> bitlen ?n" using n by (simp add: bitlen_alt_def)
  have "(2::real) powi binade x = 2 ^ nat (bitlen ?n - 1)" using pos b by (simp add: power_int_def)
  also have "\<dots> = of_int (2 ^ nat (bitlen ?n - 1))" by simp
  also have "\<dots> \<le> of_int ?n" using lo by (simp only: of_int_le_iff)
  also have "\<dots> \<le> \<bar>x\<bar>" by simp
  finally have 1: "2 powi binade x \<le> \<bar>x\<bar>" .
  have "?n + 1 \<le> 2 ^ nat (bitlen ?n)" using hi by simp
  then have "(of_int (?n + 1) :: real) \<le> of_int (2 ^ nat (bitlen ?n))" by (simp only: of_int_le_iff)
  then have up: "of_int ?n + 1 \<le> (2::real) ^ nat (bitlen ?n)" by simp
  have "\<bar>x\<bar> < of_int ?n + 1" by linarith
  with up have "\<bar>x\<bar> < 2 ^ nat (bitlen ?n)" by linarith
  moreover have "(2::real) powi (binade x + 1) = 2 ^ nat (bitlen ?n)"
    using pos b by (simp add: power_int_def)
  ultimately have 2: "\<bar>x\<bar> < 2 powi (binade x + 1)" by simp
  from 1 2 show ?thesis by simp
next
  case False
  let ?y = "1 / \<bar>x\<bar>"
  let ?c = "\<lceil>?y\<rceil>"
  have x: "0 < \<bar>x\<bar>" "\<bar>x\<bar> < 1" using assms False by simp_all
  then have y: "1 < ?y" by simp
  then have c: "0 < ?c - 1" by linarith
  let ?k = "bitlen (?c - 1)"
  have b: "binade x = - ?k" using False by (simp add: binade_def)
  from bitlen_bounds [OF c] have lo: "2 ^ nat (?k - 1) \<le> ?c - 1" and hi: "?c - 1 < 2 ^ nat ?k"
    by simp_all
  have pos: "1 \<le> ?k" using c by (simp add: bitlen_alt_def)
  have "?c \<le> 2 ^ nat ?k" using hi by simp
  then have "(of_int ?c :: real) \<le> of_int (2 ^ nat ?k)" by (simp only: of_int_le_iff)
  then have ck: "of_int ?c \<le> (2::real) ^ nat ?k" by simp
  have "?y \<le> of_int ?c" by (rule le_of_int_ceiling)
  with ck have yk: "?y \<le> 2 ^ nat ?k" by linarith
  have "(of_int (2 ^ nat (?k - 1)) :: real) \<le> of_int (?c - 1)" using lo by (simp only: of_int_le_iff)
  then have kc: "(2::real) ^ nat (?k - 1) \<le> of_int ?c - 1" by simp
  have "of_int ?c - 1 < ?y" by linarith
  with kc have ky: "2 ^ nat (?k - 1) < ?y" by linarith
  have p1: "(2::real) powi binade x = 1 / 2 ^ nat ?k"
    using pos b by (simp add: power_int_def field_simps)
  have p2: "(2::real) powi (binade x + 1) = 1 / 2 ^ nat (?k - 1)"
    using pos b by (simp add: power_int_def field_simps nat_diff_distrib)
  have 1: "1 / 2 ^ nat ?k \<le> \<bar>x\<bar>" using yk x(1) by (simp add: field_simps)
  have 2: "\<bar>x\<bar> < 1 / 2 ^ nat (?k - 1)" using ky x(1) by (simp add: field_simps)
  from 1 2 p1 p2 show ?thesis by simp
qed

lemma binade_unique:
  assumes "2 powi e \<le> \<bar>x\<bar>" "\<bar>x\<bar> < 2 powi (e + 1)"
  shows "binade x = e"
proof -
  have "(0::real) < 2 powi e" by (rule zero_less_power_int) simp
  with assms(1) have "0 < \<bar>x\<bar>" by linarith
  then have "x \<noteq> 0" by simp
  from binade_bounds [OF this]
  have b: "2 powi binade x \<le> \<bar>x\<bar>" "\<bar>x\<bar> < 2 powi (binade x + 1)" by simp_all
  have 1: "e < binade x + 1"
  proof (rule ccontr)
    assume "\<not> e < binade x + 1"
    then have "binade x + 1 \<le> e" by simp
    then have "2 powi (binade x + 1) \<le> (2::real) powi e" by (rule power_int_increasing) simp
    with assms(1) b(2) show False by linarith
  qed
  have 2: "binade x < e + 1"
  proof (rule ccontr)
    assume "\<not> binade x < e + 1"
    then have "e + 1 \<le> binade x" by simp
    then have "2 powi (e + 1) \<le> (2::real) powi binade x" by (rule power_int_increasing) simp
    with assms(2) b(1) show False by linarith
  qed
  from 1 2 show ?thesis by simp
qed


lemma pow2_shift_eq: "e = q + int n \<Longrightarrow> (2::real) powi e = 2 ^ n * 2 powi q"
  by (simp add: power_int_add)

lemma binade_mono:
  assumes "0 < x" "x \<le> y"
  shows "binade x \<le> binade y"
proof (rule ccontr)
  assume "\<not> binade x \<le> binade y"
  then have "binade y + 1 \<le> binade x" by simp
  then have "2 powi (binade y + 1) \<le> (2::real) powi binade x" by (rule power_int_increasing) simp
  moreover have "2 powi binade x \<le> \<bar>x\<bar>" using binade_bounds [of x] assms(1) by simp
  moreover have "\<bar>y\<bar> < 2 powi (binade y + 1)" using binade_bounds [of y] assms by simp
  ultimately show False using assms by simp
qed

lemma binade_double:
  assumes "x \<noteq> 0"
  shows "binade (x * 2) = binade x + 1"
proof (rule binade_unique)
  have p: "(2::real) powi (binade x + 1) = 2 ^ 1 * 2 powi binade x"
    by (rule pow2_shift_eq) simp
  have p': "(2::real) powi (binade x + 1 + 1) = 2 ^ 1 * 2 powi (binade x + 1)"
    by (rule pow2_shift_eq) simp
  from binade_bounds [OF assms]
  have b: "2 powi binade x \<le> \<bar>x\<bar>" "\<bar>x\<bar> < 2 powi (binade x + 1)" by simp_all
  show "2 powi (binade x + 1) \<le> \<bar>x * 2\<bar>"
    unfolding p using b(1) by (simp add: abs_mult)
  show "\<bar>x * 2\<bar> < 2 powi (binade x + 1 + 1)"
    unfolding p' using b(2) by (simp add: abs_mult)
qed

lemma double_round_eq:
  "x \<noteq> 0 \<Longrightarrow>
   double_round x =
     of_int (round_half_even (x / 2 powi (max (binade x) (- 1022) - 52))) *
     2 powi (max (binade x) (- 1022) - 52)"
  by (simp add: double_round_def scale_round_powi)

lemma double_round_nonneg:
  assumes "0 \<le> x"
  shows "0 \<le> double_round x"
proof (cases "x = 0")
  case True
  then show ?thesis by (simp add: double_round_def)
next
  case False
  let ?q = "max (binade x) (- 1022) - 52"
  have "(0::real) < 2 powi ?q" by (rule zero_less_power_int) simp
  then have "0 \<le> x / 2 powi ?q" using assms by simp
  then have "0 \<le> \<lfloor>x / 2 powi ?q\<rfloor>" by simp
  then have "0 \<le> round_half_even (x / 2 powi ?q)"
    using round_half_even_ge_floor [of "x / 2 powi ?q"] by linarith
  then show ?thesis using False \<open>0 < 2 powi ?q\<close> by (simp add: double_round_eq)
qed

lemma double_round_lower:
  assumes "0 < y" "- 1022 \<le> binade y"
  shows "2 powi binade y \<le> double_round y"
proof -
  let ?q = "binade y - 52"
  have q: "max (binade y) (- 1022) - 52 = ?q" using assms(2) by simp
  have pos: "(0::real) < 2 powi ?q" by (rule zero_less_power_int) simp
  have split: "(2::real) powi binade y = 2 ^ 52 * 2 powi ?q"
    by (rule pow2_shift_eq) simp
  have "2 powi binade y \<le> y" using binade_bounds [of y] assms(1) by simp
  then have "2 ^ 52 * 2 powi ?q \<le> y" using split by simp
  then have "2 ^ 52 \<le> y / 2 powi ?q" using pos by (simp add: pos_le_divide_eq)
  then have "of_int (2 ^ 52) \<le> y / 2 powi ?q" by simp
  then have "round_half_even (of_int (2 ^ 52)) \<le> round_half_even (y / 2 powi ?q)"
    by (rule round_half_even_mono)
  then have "(2::int) ^ 52 \<le> round_half_even (y / 2 powi ?q)"
    by (simp only: round_half_even_of_int)
  then have "(of_int (2 ^ 52) :: real) \<le> of_int (round_half_even (y / 2 powi ?q))"
    by (simp only: of_int_le_iff)
  then have "of_int (2 ^ 52) * (2::real) powi ?q \<le>
             of_int (round_half_even (y / 2 powi ?q)) * 2 powi ?q"
    using pos by (simp only: mult_le_cancel_right_pos)
  then have "2 ^ 52 * (2::real) powi ?q \<le> of_int (round_half_even (y / 2 powi ?q)) * 2 powi ?q"
    by simp
  then show ?thesis using assms(1) q unfolding split by (simp add: double_round_eq)
qed

lemma double_round_upper:
  assumes "0 < x"
  shows "double_round x \<le> 2 powi (max (binade x) (- 1022) + 1)"
proof -
  let ?M = "max (binade x) (- 1022)"
  let ?q = "?M - 52"
  have pos: "(0::real) < 2 powi ?q" by (rule zero_less_power_int) simp
  have split: "(2::real) powi (?M + 1) = 2 ^ 53 * 2 powi ?q"
    by (rule pow2_shift_eq) simp
  have "x < 2 powi (binade x + 1)" using binade_bounds [of x] assms by simp
  moreover have "2 powi (binade x + 1) \<le> (2::real) powi (?M + 1)"
    by (rule power_int_increasing) simp_all
  ultimately have "x \<le> 2 ^ 53 * 2 powi ?q" using split by simp
  then have "x / 2 powi ?q \<le> 2 ^ 53" using pos by (simp add: pos_divide_le_eq)
  then have "x / 2 powi ?q \<le> of_int (2 ^ 53)" by simp
  then have "round_half_even (x / 2 powi ?q) \<le> round_half_even (of_int (2 ^ 53))"
    by (rule round_half_even_mono)
  then have "round_half_even (x / 2 powi ?q) \<le> (2::int) ^ 53"
    by (simp only: round_half_even_of_int)
  then have "(of_int (round_half_even (x / 2 powi ?q)) :: real) \<le> of_int (2 ^ 53)"
    by (simp only: of_int_le_iff)
  then have "of_int (round_half_even (x / 2 powi ?q)) * (2::real) powi ?q \<le>
             of_int (2 ^ 53) * 2 powi ?q"
    using pos by (simp only: mult_le_cancel_right_pos)
  then have "of_int (round_half_even (x / 2 powi ?q)) * (2::real) powi ?q \<le> 2 ^ 53 * 2 powi ?q"
    by simp
  then show ?thesis using assms unfolding split by (simp add: double_round_eq)
qed

lemma double_round_mono:
  assumes "0 \<le> x" "x \<le> y"
  shows "double_round x \<le> double_round y"
proof (cases "x = 0")
  case True
  then show ?thesis using double_round_nonneg [of y] assms by (simp add: double_round_def)
next
  case False
  then have x: "0 < x" and y: "0 < y" using assms by simp_all
  let ?Mx = "max (binade x) (- 1022)" and ?My = "max (binade y) (- 1022)"
  have le: "?Mx \<le> ?My" using binade_mono [OF x assms(2)] by simp
  show ?thesis
  proof (cases "?Mx = ?My")
    case True
    let ?q = "?Mx - 52"
    have pos: "(0::real) < 2 powi ?q" by (rule zero_less_power_int) simp
    then have "x / 2 powi ?q \<le> y / 2 powi ?q" using assms(2) by (simp add: divide_right_mono)
    then have "round_half_even (x / 2 powi ?q) \<le> round_half_even (y / 2 powi ?q)"
      by (rule round_half_even_mono)
    then have "(of_int (round_half_even (x / 2 powi ?q)) :: real) \<le>
               of_int (round_half_even (y / 2 powi ?q))" by (simp only: of_int_le_iff)
    then have "of_int (round_half_even (x / 2 powi ?q)) * (2::real) powi ?q \<le>
               of_int (round_half_even (y / 2 powi ?q)) * 2 powi ?q"
      using pos by (simp only: mult_le_cancel_right_pos)
    then show ?thesis using x y True by (simp add: double_round_eq)
  next
    case False
    have bxy: "binade x \<le> binade y" by (rule binade_mono [OF x assms(2)])
    with False have lt: "?Mx < ?My" by linarith
    with bxy have by': "- 1022 \<le> binade y" and My: "?My = binade y" by linarith+
    have "double_round x \<le> 2 powi (?Mx + 1)" by (rule double_round_upper [OF x])
    also have "\<dots> \<le> 2 powi binade y"
    proof (rule power_int_increasing)
      show "?Mx + 1 \<le> binade y" using lt My by linarith
    qed simp
    also have "\<dots> \<le> double_round y" by (rule double_round_lower [OF y by'])
    finally show ?thesis .
  qed
qed

lemma double_round_double:
  assumes "double_round x = x"
  shows "double_round (x * 2) = x * 2"
proof (cases "x = 0")
  case True
  then show ?thesis by (simp add: double_round_def)
next
  case False
  let ?q = "max (binade x) (- 1022) - 52"
  let ?n = "round_half_even (x / 2 powi ?q)"
  have pos: "(0::real) < 2 powi ?q" by (rule zero_less_power_int) simp
  have "x = of_int ?n * 2 powi ?q" using assms False by (simp add: double_round_eq)
  then have n: "x / 2 powi ?q = of_int ?n" using pos by (simp add: field_simps)
  have b2: "binade (x * 2) = binade x + 1" by (rule binade_double [OF False])
  have x2: "x * 2 \<noteq> 0" using False by simp
  show ?thesis
  proof (cases "- 1022 \<le> binade x")
    case True
    then have q': "max (binade (x * 2)) (- 1022) - 52 = ?q + 1" using b2 by simp
    have "(2::real) powi (?q + 1) = 2 ^ 1 * 2 powi ?q" by (rule pow2_shift_eq) simp
    then have p: "(2::real) powi (?q + 1) = 2 powi ?q * 2" by simp
    have "x * 2 / 2 powi (?q + 1) = of_int ?n" using n p by simp
    then have "round_half_even (x * 2 / 2 powi (?q + 1)) = ?n"
      by (simp only: round_half_even_of_int)
    then have "double_round (x * 2) = of_int ?n * 2 powi (?q + 1)"
      using x2 q' by (simp add: double_round_eq)
    also have "\<dots> = x * 2" using \<open>x = of_int ?n * 2 powi ?q\<close> p by simp
    finally show ?thesis .
  next
    case False
    then have q': "max (binade (x * 2)) (- 1022) - 52 = ?q" using b2 by simp
    have "x * 2 / 2 powi ?q = of_int (?n * 2)" using n by simp
    then have "round_half_even (x * 2 / 2 powi ?q) = ?n * 2"
      by (simp only: round_half_even_of_int)
    then have "double_round (x * 2) = of_int (?n * 2) * 2 powi ?q"
      using x2 q' by (simp add: double_round_eq)
    also have "\<dots> = x * 2" using \<open>x = of_int ?n * 2 powi ?q\<close> by simp
    finally show ?thesis .
  qed
qed

lemma rounding_double_round: "rounding double_round"
  by (simp add: rounding_def double_round_mono double_round_double) (simp add: double_round_def)

subsection \<open>Invariants of the rounds\<close>

lemma play_round_fields:
  "initial_balance (play_round rnd d m) = initial_balance m"
  "initial_bet (play_round rnd d m) = initial_bet m"
  "win_prob (play_round rnd d m) = win_prob m"
  "table_limit (play_round rnd d m) = table_limit m"
  "balance (play_round rnd d m) =
     (if d \<le> win_prob m then rnd (rnd (balance m - current_bet m) + rnd (2 * current_bet m))
      else rnd (balance m - current_bet m))"
  "current_bet (play_round rnd d m) =
     (if d \<le> win_prob m then initial_bet m else rnd (current_bet m * 2))"
  "balance_history (play_round rnd d m) = balance_history m @ [balance (play_round rnd d m)]"
  "rounds_played (play_round rnd d m) = rounds_played m + 1"
  by (simp_all add: play_round_def Let_def)

lemma run_rounds_invariant:
  assumes "P s" and "\<And>s. P s \<Longrightarrow> loop_cond (fst s) \<Longrightarrow> P (loop_body rnd s)"
  shows "P (run_rounds rnd n s)"
  using assms(1)
proof (induction n arbitrary: s)
  case 0
  then show ?case by simp
next
  case (Suc n)
  then show ?case using assms(2) by simp
qed

lemma run_rounds_params:
  "initial_balance (fst (run_rounds rnd n s)) = initial_balance (fst s) \<and>
   initial_bet (fst (run_rounds rnd n s)) = initial_bet (fst s) \<and>
   win_prob (fst (run_rounds rnd n s)) = win_prob (fst s) \<and>
   table_limit (fst (run_rounds rnd n s)) = table_limit (fst s)"
  by (rule run_rounds_invariant) (simp_all add: loop_body_def random_random_def play_round_fields)

lemma rounds_played_run:
  "loop_cond (fst (run_rounds rnd n s)) \<or> n = 0 \<or> loop_cond (fst (run_rounds rnd (n - 1) s)) \<Longrightarrow>
   rounds_played (fst (run_rounds rnd n s)) = rounds_played (fst s) + n"
proof (induction n)
  case 0
  show ?case by simp
next
  case (Suc n)
  then have c: "loop_cond (fst (run_rounds rnd n s))"
    using loop_cond_earlier [of rnd "Suc n" s n] by auto
  then have "n = 0 \<or> loop_cond (fst (run_rounds rnd (n - 1) s))"
    using loop_cond_earlier [of rnd n s "n - 1"] by auto
  with Suc.IH have "rounds_played (fst (run_rounds rnd n s)) = rounds_played (fst s) + n" by simp
  then show ?case using c
    by (simp add: run_rounds_snoc loop_body_def random_random_def play_round_fields
        del: run_rounds.simps(2))
qed

lemma rounds_played_le:
  "rounds_played (fst (run_rounds rnd n s)) \<le> rounds_played (fst s) + n"
  by (induction n)
    (simp_all add: run_rounds_snoc loop_body_def random_random_def play_round_fields
      del: run_rounds.simps(2))

lemma history_extends:
  "\<exists>ys. balance_history (fst (run_rounds rnd (k + d) s)) = balance_history (fst (run_rounds rnd k s)) @ ys"
proof (induction d)
  case 0
  show ?case by simp
next
  case (Suc d)
  then obtain ys where "balance_history (fst (run_rounds rnd (k + d) s)) =
      balance_history (fst (run_rounds rnd k s)) @ ys" by blast
  then show ?case
    by (simp add: run_rounds_snoc loop_body_def random_random_def play_round_fields
        del: run_rounds.simps(2))
qed

lemma history_nth_later:
  assumes "k \<le> n" "i < length (balance_history (fst (run_rounds rnd k s)))"
  shows "balance_history (fst (run_rounds rnd n s)) ! i = balance_history (fst (run_rounds rnd k s)) ! i"
proof -
  from history_extends [of rnd k "n - k" s] assms(1) obtain ys where
    "balance_history (fst (run_rounds rnd n s)) = balance_history (fst (run_rounds rnd k s)) @ ys"
    by auto
  then show ?thesis using assms(2) by (simp add: nth_append)
qed

lemma track_reset: "track m r (reset m, r)"
  by (simp add: track_def reset_fields)

lemma track_loop_body: "track m r s \<Longrightarrow> track m r (loop_body rnd s)"
  by (auto simp add: track_def loop_body_def random_random_def play_round_fields nth_append)

lemma track_run_rounds: "track m r (run_rounds rnd n (reset m, r))"
  by (rule run_rounds_invariant) (simp_all add: track_reset track_loop_body)

subsection \<open>The history of a run from a reset process\<close>

lemma played_before_guard:
  assumes "loop_cond (fst (run_rounds rnd i (reset m, r)))"
  shows "rounds_played (fst (run_rounds rnd i (reset m, r))) = i"
  using rounds_played_run [of rnd i "(reset m, r)"] assms by (simp add: reset_fields)

lemma round_after_guard:
  assumes "loop_cond (fst (run_rounds rnd i (reset m, r)))"
  shows "fst (run_rounds rnd (Suc i) (reset m, r)) = play_round rnd (r i) (fst (run_rounds rnd i (reset m, r)))"
proof -
  have "snd (run_rounds rnd i (reset m, r)) = (\<lambda>k. r (i + k))"
    using track_run_rounds [of m r rnd i] played_before_guard [OF assms] by (simp add: track_def)
  then show ?thesis using assms
    by (simp add: run_rounds_snoc loop_body_def random_random_def del: run_rounds.simps(2))
qed

lemma history_step:
  assumes g: "loop_cond (fst (run_rounds rnd i (reset m, r)))" and "i < n"
  shows "balance_history (fst (run_rounds rnd n (reset m, r))) ! Suc i =
           (if r i \<le> win_prob m
            then rnd (rnd (balance_history (fst (run_rounds rnd n (reset m, r))) ! i -
                           current_bet (fst (run_rounds rnd i (reset m, r)))) +
                      rnd (2 * current_bet (fst (run_rounds rnd i (reset m, r)))))
            else rnd (balance_history (fst (run_rounds rnd n (reset m, r))) ! i -
                      current_bet (fst (run_rounds rnd i (reset m, r)))))"
proof -
  let ?S = "\<lambda>k. fst (run_rounds rnd k (reset m, r))"
  have t: "track m r (run_rounds rnd i (reset m, r))" by (rule track_run_rounds)
  have rp: "rounds_played (?S i) = i" by (rule played_before_guard [OF g])
  have len: "length (balance_history (?S i)) = i + 1" using t rp by (simp add: track_def)
  have wp: "win_prob (?S i) = win_prob m" using t by (simp add: track_def)
  have "balance_history (?S i) \<noteq> []" using len by auto
  then have "balance_history (?S i) ! i = last (balance_history (?S i))"
    using len by (simp add: last_conv_nth)
  then have at_i: "balance_history (?S i) ! i = balance (?S i)" using t by (simp add: track_def)
  have nxt: "?S (Suc i) = play_round rnd (r i) (?S i)" by (rule round_after_guard [OF g])
  have h1: "balance_history (?S (Suc i)) ! i = balance (?S i)"
    using at_i len by (simp add: nxt play_round_fields nth_append del: run_rounds.simps(2))
  have h2: "balance_history (?S (Suc i)) ! Suc i = balance (play_round rnd (r i) (?S i))"
    using len by (simp add: nxt play_round_fields nth_append del: run_rounds.simps(2))
  have len': "length (balance_history (?S (Suc i))) = i + 2"
    using len by (simp add: nxt play_round_fields del: run_rounds.simps(2))
  have "Suc i \<le> n" using assms(2) by simp
  then have "balance_history (?S n) ! i = balance_history (?S (Suc i)) ! i"
    and "balance_history (?S n) ! Suc i = balance_history (?S (Suc i)) ! Suc i"
    using len' by (simp_all add: history_nth_later del: run_rounds.simps(2))
  then show ?thesis using h1 h2 wp by (simp add: play_round_fields del: run_rounds.simps(2))
qed

lemma history_step_exact:
  assumes "loop_cond (fst (run_rounds exact i (reset m, r)))" and "i < n"
  shows "balance_history (fst (run_rounds exact n (reset m, r))) ! Suc i =
         balance_history (fst (run_rounds exact n (reset m, r))) ! i +
           (if r i \<le> win_prob m then current_bet (fst (run_rounds exact i (reset m, r)))
            else - current_bet (fst (run_rounds exact i (reset m, r))))"
  using history_step [OF assms] by (simp add: exact_def)

lemma completed_round_guard:
  assumes "simulate rnd (reset m) r = Some (m', r')" "i < rounds_played m'"
  shows "\<exists>n. i < n \<and> m' = fst (run_rounds rnd n (reset m, r)) \<and>
             loop_cond (fst (run_rounds rnd i (reset m, r)))"
proof -
  from simulate_Some_stopped [OF assms(1)] obtain n
    where n: "(m', r') = run_rounds rnd n (reset m, r)" by blast
  then have m': "m' = fst (run_rounds rnd n (reset m, r))" by (metis fst_conv)
  have "rounds_played m' \<le> n"
    using rounds_played_le [of rnd n "(reset m, r)"] m' by (simp add: reset_fields)
  with assms(2) have "i < n" by simp
  have "loop_cond (fst (run_rounds rnd i (reset m, r)))"
  proof (rule ccontr)
    assume "\<not> loop_cond (fst (run_rounds rnd i (reset m, r)))"
    then have "run_rounds rnd n (reset m, r) = run_rounds rnd i (reset m, r)"
      using \<open>i < n\<close> run_rounds_stays_stopped [of rnd i "(reset m, r)" n] by simp
    then have "rounds_played m' \<le> i"
      using rounds_played_le [of rnd i "(reset m, r)"] m' by (simp add: reset_fields)
    with assms(2) show False by simp
  qed
  with \<open>i < n\<close> m' show ?thesis by blast
qed

subsection \<open>The first state in which the loop stops\<close>

lemma simulate_Some_first_stop:
  assumes "simulate rnd m r = Some s'"
  shows "\<exists>n. s' = run_rounds rnd n (m, r) \<and> \<not> loop_cond (fst s') \<and>
             (\<forall>k<n. loop_cond (fst (run_rounds rnd k (m, r))))"
proof -
  from simulate_Some_stopped [OF assms] obtain n0
    where n0: "s' = run_rounds rnd n0 (m, r)" "\<not> loop_cond (fst s')" by blast
  define n where "n = (LEAST k. \<not> loop_cond (fst (run_rounds rnd k (m, r))))"
  have stop: "\<not> loop_cond (fst (run_rounds rnd n (m, r)))"
    unfolding n_def using n0 by (metis (mono_tags, lifting) LeastI)
  have le: "n \<le> n0" unfolding n_def using n0 by (simp add: Least_le)
  have before: "\<forall>k<n. loop_cond (fst (run_rounds rnd k (m, r)))"
    unfolding n_def using not_less_Least by blast
  have "run_rounds rnd n0 (m, r) = run_rounds rnd n (m, r)"
    using run_rounds_stays_stopped [OF stop le] .
  with n0 stop before show ?thesis by auto
qed

lemma loop_cond_fails:
  "\<not> loop_cond m \<longleftrightarrow> balance m < current_bet m \<or> table_limit m < current_bet m"
  by (auto simp add: loop_cond_def)

lemma history_inv_reset: "history_inv (reset m)"
  by (simp add: history_inv_def reset_fields)

lemma history_inv_play_round: "history_inv m \<Longrightarrow> history_inv (play_round rnd d m)"
  by (simp add: history_inv_def play_round_fields nth_append)

lemma history_inv_run_rounds: "history_inv m \<Longrightarrow> history_inv (fst (run_rounds rnd n (m, r)))"
proof -
  assume "history_inv m"
  then have "history_inv (fst (m, r))" by simp
  then show ?thesis
    by (rule run_rounds_invariant [where P = "\<lambda>s. history_inv (fst s)"])
      (simp add: loop_body_def random_random_def history_inv_play_round)
qed

subsection \<open>Runs that never stop, and signs\<close>

lemma always_winning_never_stops:
  assumes rnd: "rounding rnd" "rnd (initial_bet m) = initial_bet m"
    and "0 \<le> initial_bet m" "initial_bet m \<le> initial_balance m"
    "initial_bet m \<le> table_limit m" "\<forall>k. r k \<le> win_prob m"
  shows "loop_cond (fst (run_rounds rnd n (reset m, r)))"
proof -
  let ?Q = "\<lambda>s :: martingale \<times> rng. current_bet (fst s) = initial_bet m \<and>
                 initial_bet m \<le> balance (fst s) \<and>
                 initial_bet (fst s) = initial_bet m \<and> table_limit (fst s) = table_limit m \<and>
                 win_prob (fst s) = win_prob m \<and> (\<forall>k. snd s k \<le> win_prob m)"
  have "?Q (run_rounds rnd n (reset m, r))"
  proof (rule run_rounds_invariant [where P = ?Q])
    show "?Q (reset m, r)" using assms(4,6) by (simp add: reset_fields)
  next
    fix s :: "martingale \<times> rng"
    assume q: "?Q s" and "loop_cond (fst s)"
    let ?b = "balance (fst s)" and ?c = "initial_bet m"
    have "0 \<le> rnd (?b - ?c)" using q rnd(1) by (simp add: rounding_nonneg)
    moreover have "?c \<le> rnd (2 * ?c)"
      using rounding_mono [OF rnd(1) assms(3), of "2 * ?c"] rnd(2) assms(3) by simp
    ultimately have "?c \<le> rnd (?b - ?c) + rnd (2 * ?c)" by simp
    then have "?c \<le> rnd (rnd (?b - ?c) + rnd (2 * ?c))"
      using rounding_mono [OF rnd(1) assms(3), of "rnd (?b - ?c) + rnd (2 * ?c)"] rnd(2) by simp
    with q show "?Q (loop_body rnd s)"
      by (simp add: loop_body_def random_random_def play_round_fields)
  qed
  then show ?thesis using assms(5) by (simp add: loop_cond_def)
qed

lemma always_winning_diverges:
  assumes "rounding rnd" "rnd (initial_bet m) = initial_bet m"
    and "0 \<le> initial_bet m" "initial_bet m \<le> initial_balance m"
    "initial_bet m \<le> table_limit m" "\<forall>k. r k \<le> win_prob m"
  shows "simulate rnd (reset m) r = None"
  by (rule simulate_None) (rule always_winning_never_stops [OF assms])

lemma nonneg_run_rounds:
  assumes rnd: "rounding rnd" and "0 \<le> initial_balance m" "0 \<le> initial_bet m"
  shows "0 \<le> balance (fst (run_rounds rnd n (reset m, r))) \<and>
         0 \<le> current_bet (fst (run_rounds rnd n (reset m, r))) \<and>
         (\<forall>x\<in>set (balance_history (fst (run_rounds rnd n (reset m, r)))). 0 \<le> x)"
proof -
  let ?Q = "\<lambda>s :: martingale \<times> rng. 0 \<le> balance (fst s) \<and> 0 \<le> current_bet (fst s) \<and>
                 0 \<le> initial_bet (fst s) \<and> (\<forall>x\<in>set (balance_history (fst s)). 0 \<le> x)"
  have "?Q (run_rounds rnd n (reset m, r))"
  proof (rule run_rounds_invariant [where P = ?Q])
    show "?Q (reset m, r)" using assms by (simp add: reset_fields)
  next
    fix s :: "martingale \<times> rng"
    assume q: "?Q s" and g: "loop_cond (fst s)"
    let ?b = "balance (fst s)" and ?c = "current_bet (fst s)"
    have stake: "0 \<le> rnd (?b - ?c)" using g rnd by (simp add: rounding_nonneg loop_cond_def)
    have twice: "0 \<le> rnd (2 * ?c)" and doubled: "0 \<le> rnd (?c * 2)"
      using q rnd by (simp_all add: rounding_nonneg)
    from stake twice have "0 \<le> rnd (rnd (?b - ?c) + rnd (2 * ?c))"
      using rnd by (simp add: rounding_nonneg)
    with stake doubled q show "?Q (loop_body rnd s)"
      by (simp add: loop_body_def random_random_def play_round_fields)
  qed
  then show ?thesis by simp
qed

lemma history_length_run_rounds:
  "length (balance_history (fst (run_rounds rnd n (reset m, r)))) =
   rounds_played (fst (run_rounds rnd n (reset m, r))) + 1"
  using track_run_rounds [of m r rnd n] by (simp add: track_def)

subsection \<open>Losing streaks\<close>

lemma consecutive_losses_streak:
  "\<forall>k<K. wp < r (j + k) \<Longrightarrow> consecutive_losses wp r (j + K) = consecutive_losses wp r j + K"
  by (induction K) (simp_all add: not_le [symmetric])

lemma bet_track_reset: "bet_track m r (reset m, r)"
  by (simp add: bet_track_def track_reset reset_fields)

lemma bet_track_loop_body:
  assumes "rounding rnd" "rnd (initial_bet m) = initial_bet m" "bet_track m r s"
  shows "bet_track m r (loop_body rnd s)"
proof -
  let ?k = "consecutive_losses (win_prob m) r (rounds_played (fst s))"
  from assms(3) have t: "track m r s" and bet: "current_bet (fst s) = initial_bet m * 2 ^ ?k"
    by (simp_all add: bet_track_def)
  have "rnd (current_bet (fst s)) = current_bet (fst s)"
    unfolding bet by (rule rounding_double [OF assms(1,2)])
  moreover from assms(1) have "\<forall>y. rnd y = y \<longrightarrow> rnd (y * 2) = y * 2"
    by (simp add: rounding_def)
  ultimately have doubled: "rnd (current_bet (fst s) * 2) = current_bet (fst s) * 2" by blast
  have cb: "current_bet (fst (loop_body rnd s)) =
      (if r (rounds_played (fst s)) \<le> win_prob m then initial_bet m
       else current_bet (fst s) * 2)"
    using t doubled by (simp add: track_def loop_body_def random_random_def play_round_fields)
  have rp: "rounds_played (fst (loop_body rnd s)) = Suc (rounds_played (fst s))"
    by (simp add: loop_body_def random_random_def play_round_fields)
  have "current_bet (fst (loop_body rnd s)) =
      initial_bet m * 2 ^ consecutive_losses (win_prob m) r (rounds_played (fst (loop_body rnd s)))"
    unfolding rp cb using bet by simp
  then show ?thesis using t by (simp add: bet_track_def track_loop_body)
qed

lemma bet_track_run_rounds:
  assumes "rounding rnd" "rnd (initial_bet m) = initial_bet m"
  shows "bet_track m r (run_rounds rnd n (reset m, r))"
  by (rule run_rounds_invariant) (simp_all add: bet_track_reset bet_track_loop_body [OF assms])

lemma losing_from_start_balance:
  assumes rnd: "rounding rnd" "rnd (initial_balance m) = initial_balance m"
    and "0 \<le> initial_bet m" "\<forall>k<K. win_prob m < r k"
  shows "rounds_played (fst (run_rounds rnd n (reset m, r))) \<le> K \<longrightarrow>
         balance (fst (run_rounds rnd n (reset m, r))) \<le> initial_balance m"
proof -
  let ?Q = "\<lambda>s :: martingale \<times> rng. track m r s \<and> 0 \<le> current_bet (fst s) \<and>
              (rounds_played (fst s) \<le> K \<longrightarrow> balance (fst s) \<le> initial_balance m)"
  have "?Q (run_rounds rnd n (reset m, r))"
  proof (rule run_rounds_invariant [where P = ?Q])
    show "?Q (reset m, r)" using assms(3) by (simp add: track_reset reset_fields)
  next
    fix s :: "martingale \<times> rng"
    assume q: "?Q s" and g: "loop_cond (fst s)"
    then have t: "track m r s" by simp
    have bet: "0 \<le> current_bet (fst (loop_body rnd s))"
      using q t assms(3) rnd(1)
      by (simp add: track_def loop_body_def random_random_def play_round_fields rounding_nonneg)
    have "balance (fst (loop_body rnd s)) \<le> initial_balance m"
      if le: "rounds_played (fst (loop_body rnd s)) \<le> K"
    proof -
      from le have lt: "rounds_played (fst s) < K"
        by (simp add: loop_body_def random_random_def play_round_fields)
      then have "win_prob m < r (rounds_played (fst s))" using assms(4) by simp
      moreover have "snd s 0 = r (rounds_played (fst s))" using t by (simp add: track_def)
      moreover have "win_prob (fst s) = win_prob m" using t by (simp add: track_def)
      ultimately have loss: "\<not> snd s 0 \<le> win_prob (fst s)" by simp
      have "balance (fst s) - current_bet (fst s) \<le> initial_balance m" using q lt by simp
      moreover have "0 \<le> balance (fst s) - current_bet (fst s)"
        using g by (simp add: loop_cond_def)
      ultimately have "rnd (balance (fst s) - current_bet (fst s)) \<le> initial_balance m"
        using rounding_mono [OF rnd(1), of "balance (fst s) - current_bet (fst s)" "initial_balance m"]
          rnd(2) by simp
      then show ?thesis using loss
        by (simp add: loop_body_def random_random_def play_round_fields)
    qed
    then show "?Q (loop_body rnd s)" using t bet by (simp add: track_loop_body)
  qed
  then show ?thesis by simp
qed

lemma losing_streak_stops:
  assumes rnd: "rounding rnd" "rnd (initial_bet m) = initial_bet m"
    and pos: "0 < initial_bet m"
    and losses: "\<forall>k<K. win_prob m < r (j + k)"
    and bound: "table_limit m < initial_bet m * 2 ^ K \<or>
                (j = 0 \<and> rnd (initial_balance m) = initial_balance m \<and>
                 initial_balance m < initial_bet m * 2 ^ K)"
  shows "\<not> loop_cond (fst (run_rounds rnd (j + K) (reset m, r)))"
proof
  let ?s = "run_rounds rnd (j + K) (reset m, r)"
  assume g: "loop_cond (fst ?s)"
  have bt: "bet_track m r ?s" by (rule bet_track_run_rounds [OF rnd])
  then have t: "track m r ?s" by (simp add: bet_track_def)
  have rp: "rounds_played (fst ?s) = j + K" using g by (rule played_before_guard)
  have "current_bet (fst ?s) = initial_bet m * 2 ^ (consecutive_losses (win_prob m) r j + K)"
    using bt rp consecutive_losses_streak [OF losses] by (simp add: bet_track_def)
  also have "\<dots> = (initial_bet m * 2 ^ K) * 2 ^ consecutive_losses (win_prob m) r j"
    by (simp add: power_add)
  finally have bet: "current_bet (fst ?s) =
      (initial_bet m * 2 ^ K) * 2 ^ consecutive_losses (win_prob m) r j" .
  have "(1::real) \<le> 2 ^ consecutive_losses (win_prob m) r j" by simp
  moreover have "0 \<le> initial_bet m * 2 ^ K" using pos by simp
  ultimately have "initial_bet m * 2 ^ K * 1 \<le>
      (initial_bet m * 2 ^ K) * 2 ^ consecutive_losses (win_prob m) r j"
    by (rule mult_left_mono)
  with bet have big: "initial_bet m * 2 ^ K \<le> current_bet (fst ?s)" by simp
  have lim: "current_bet (fst ?s) \<le> table_limit m"
    using g t by (simp add: loop_cond_def track_def)
  have bal: "current_bet (fst ?s) \<le> balance (fst ?s)" using g by (simp add: loop_cond_def)
  from bound show False
  proof
    assume "table_limit m < initial_bet m * 2 ^ K"
    with big lim show False by simp
  next
    assume a: "j = 0 \<and> rnd (initial_balance m) = initial_balance m \<and>
               initial_balance m < initial_bet m * 2 ^ K"
    then have "\<forall>k<K. win_prob m < r k" using losses by simp
    then have "balance (fst ?s) \<le> initial_balance m"
      using losing_from_start_balance [where rnd = rnd and m = m and K = K and r = r and n = "j + K"]
        rnd(1) pos rp a by simp
    with a big bal show False by simp
  qed
qed

subsection \<open>The comprehension\<close>

lemma comprehension_Suc_Some:
  "comprehension rnd ib ibet wp tlim (Suc k) r = Some (ms, r') \<longleftrightarrow>
   (\<exists>m r1 ms1. simulate rnd (Martingale ib ibet wp tlim) r = Some (m, r1) \<and>
                comprehension rnd ib ibet wp tlim k r1 = Some (ms1, r') \<and> ms = m # ms1)"
  by (auto split: option.splits)

lemma comprehension_iff:
  "comprehension rnd ib ibet wp tlim k r = Some (ms, r') \<longleftrightarrow>
   (\<exists>rs. length rs = k + 1 \<and> length ms = k \<and> rs ! 0 = r \<and> rs ! k = r' \<and>
         (\<forall>i<k. simulate rnd (Martingale ib ibet wp tlim) (rs ! i) = Some (ms ! i, rs ! Suc i)))"
proof (induction k arbitrary: r ms)
  case 0
  show ?case
  proof
    assume "comprehension rnd ib ibet wp tlim 0 r = Some (ms, r')"
    then have "ms = []" "r' = r" by simp_all
    then have "length [r] = 0 + 1 \<and> length ms = 0 \<and> [r] ! 0 = r \<and> [r] ! 0 = r'" by simp
    then show "\<exists>rs. length rs = 0 + 1 \<and> length ms = 0 \<and> rs ! 0 = r \<and> rs ! 0 = r' \<and>
         (\<forall>i<0. simulate rnd (Martingale ib ibet wp tlim) (rs ! i) = Some (ms ! i, rs ! Suc i))"
      by blast
  next
    assume "\<exists>rs. length rs = 0 + 1 \<and> length ms = 0 \<and> rs ! 0 = r \<and> rs ! 0 = r' \<and>
         (\<forall>i<0. simulate rnd (Martingale ib ibet wp tlim) (rs ! i) = Some (ms ! i, rs ! Suc i))"
    then show "comprehension rnd ib ibet wp tlim 0 r = Some (ms, r')" by auto
  qed
next
  case (Suc k)
  let ?M = "Martingale ib ibet wp tlim"
  show ?case
  proof
    assume "comprehension rnd ib ibet wp tlim (Suc k) r = Some (ms, r')"
    then obtain m r1 ms1 where s: "simulate rnd ?M r = Some (m, r1)"
      and c: "comprehension rnd ib ibet wp tlim k r1 = Some (ms1, r')" and ms: "ms = m # ms1"
      unfolding comprehension_Suc_Some by blast
    from c obtain rs1 where rs1: "length rs1 = k + 1" "length ms1 = k" "rs1 ! 0 = r1"
      "rs1 ! k = r'" "\<forall>i<k. simulate rnd ?M (rs1 ! i) = Some (ms1 ! i, rs1 ! Suc i)"
      unfolding Suc.IH by blast
    have all: "\<forall>i<Suc k. simulate rnd ?M ((r # rs1) ! i) = Some (ms ! i, (r # rs1) ! Suc i)"
    proof (intro allI impI)
      fix i assume "i < Suc k"
      then show "simulate rnd ?M ((r # rs1) ! i) = Some (ms ! i, (r # rs1) ! Suc i)"
        using s rs1(3,5) ms by (cases i) simp_all
    qed
    have "length (r # rs1) = Suc k + 1 \<and> length ms = Suc k \<and> (r # rs1) ! 0 = r \<and>
          (r # rs1) ! Suc k = r'"
      using rs1 ms by simp
    with all show "\<exists>rs. length rs = Suc k + 1 \<and> length ms = Suc k \<and> rs ! 0 = r \<and>
        rs ! Suc k = r' \<and> (\<forall>i<Suc k. simulate rnd ?M (rs ! i) = Some (ms ! i, rs ! Suc i))"
      by blast
  next
    assume "\<exists>rs. length rs = Suc k + 1 \<and> length ms = Suc k \<and> rs ! 0 = r \<and>
        rs ! Suc k = r' \<and> (\<forall>i<Suc k. simulate rnd ?M (rs ! i) = Some (ms ! i, rs ! Suc i))"
    then obtain rs where rs: "length rs = Suc k + 1" "length ms = Suc k" "rs ! 0 = r"
      "rs ! Suc k = r'" "\<forall>i<Suc k. simulate rnd ?M (rs ! i) = Some (ms ! i, rs ! Suc i)"
      by blast
    from rs(1) obtain r0 rs1 where rs_eq: "rs = r0 # rs1" and l1: "length rs1 = k + 1"
      by (cases rs) simp_all
    from rs(2) obtain m ms1 where ms_eq: "ms = m # ms1" and l2: "length ms1 = k"
      by (cases ms) simp_all
    have r0: "r0 = r" using rs(3) rs_eq by simp
    have first: "simulate rnd ?M r = Some (m, rs1 ! 0)"
      using rs(5) rs_eq ms_eq r0 by auto
    have rest: "\<forall>i<k. simulate rnd ?M (rs1 ! i) = Some (ms1 ! i, rs1 ! Suc i)"
    proof (intro allI impI)
      fix i assume "i < k"
      then have "simulate rnd ?M (rs ! Suc i) = Some (ms ! Suc i, rs ! Suc (Suc i))"
        using rs(5) by simp
      then show "simulate rnd ?M (rs1 ! i) = Some (ms1 ! i, rs1 ! Suc i)"
        using rs_eq ms_eq by simp
    qed
    have "rs1 ! k = r'" using rs(4) rs_eq by simp
    with l1 l2 rest have "comprehension rnd ib ibet wp tlim k (rs1 ! 0) = Some (ms1, r')"
      unfolding Suc.IH by blast
    with first ms_eq show "comprehension rnd ib ibet wp tlim (Suc k) r = Some (ms, r')"
      by simp
  qed
qed

lemma simulate_result_fields:
  assumes "simulate rnd m r = Some (m', r')"
  shows "initial_balance m' = initial_balance m \<and> initial_bet m' = initial_bet m \<and>
         win_prob m' = win_prob m \<and> table_limit m' = table_limit m \<and> \<not> loop_cond m'"
proof -
  from simulate_Some_stopped [OF assms] obtain n
    where n: "(m', r') = run_rounds rnd n (m, r)" "\<not> loop_cond m'" by auto
  then have "m' = fst (run_rounds rnd n (m, r))" by (metis fst_conv)
  then show ?thesis using run_rounds_params [of rnd n "(m, r)"] n(2) by simp
qed

subsection \<open>Unfolding concrete runs\<close>

lemmas float_defs = double_round_def scale_round_def binade_def compute_bitlen
  round_half_even_def Let_def

lemmas run_defs = simulate_unfold Martingale_def reset_def loop_cond_def play_round_def Let_def
  loop_body_def random_random_def list_rng_def constant_rng_def exact_def float_defs

section \<open>Claims\<close>

text \<open>
  C1, as amended: in a round in which the loop condition holds, the bet is first subtracted
  from the balance; on a win twice the bet is added and the bet goes back to the initial
  bet, on a loss the bet is doubled and the balance stays reduced; then the new balance is
  appended to the history and the round is counted. Round \<open>i + 1\<close> of a run from a
  reset process is that step with the draw \<open>r i\<close>, and so, in every later state and
  in the returned object, entry \<open>i + 1\<close> of the history is what the code computes from
  entry \<open>i\<close> and the bet staked in that round: the entry minus the bet, plus twice the
  bet if the round was won, each operation in the arithmetic of the numbers. In exact
  arithmetic that is the entry plus the bet on a win and the entry minus the bet on a loss.
\<close>

theorem round_transition:
  "(loop_cond m \<longrightarrow>
      play_round rnd d m =
        (if d \<le> win_prob m
         then m\<lparr>balance := rnd (rnd (balance m - current_bet m) + rnd (2 * current_bet m)),
                current_bet := initial_bet m,
                balance_history := balance_history m @
                  [rnd (rnd (balance m - current_bet m) + rnd (2 * current_bet m))],
                rounds_played := rounds_played m + 1\<rparr>
         else m\<lparr>balance := rnd (balance m - current_bet m),
                current_bet := rnd (current_bet m * 2),
                balance_history := balance_history m @ [rnd (balance m - current_bet m)],
                rounds_played := rounds_played m + 1\<rparr>)) \<and>
   (loop_cond (fst (run_rounds rnd i (reset m0, r))) \<longrightarrow>
      fst (run_rounds rnd (Suc i) (reset m0, r)) =
        play_round rnd (r i) (fst (run_rounds rnd i (reset m0, r)))) \<and>
   (loop_cond (fst (run_rounds rnd i (reset m0, r))) \<and> i < n \<longrightarrow>
      balance_history (fst (run_rounds rnd n (reset m0, r))) ! Suc i =
        (if r i \<le> win_prob m0
         then rnd (rnd (balance_history (fst (run_rounds rnd n (reset m0, r))) ! i -
                        current_bet (fst (run_rounds rnd i (reset m0, r)))) +
                   rnd (2 * current_bet (fst (run_rounds rnd i (reset m0, r)))))
         else rnd (balance_history (fst (run_rounds rnd n (reset m0, r))) ! i -
                   current_bet (fst (run_rounds rnd i (reset m0, r)))))) \<and>
   (simulate rnd (reset m0) r = Some (m', r') \<and> i < rounds_played m' \<longrightarrow>
      balance_history m' ! Suc i =
        (if r i \<le> win_prob m0
         then rnd (rnd (balance_history m' ! i -
                        current_bet (fst (run_rounds rnd i (reset m0, r)))) +
                   rnd (2 * current_bet (fst (run_rounds rnd i (reset m0, r)))))
         else rnd (balance_history m' ! i -
                   current_bet (fst (run_rounds rnd i (reset m0, r)))))) \<and>
   (loop_cond (fst (run_rounds exact i (reset m0, r))) \<and> i < n \<longrightarrow>
      balance_history (fst (run_rounds exact n (reset m0, r))) ! Suc i =
      balance_history (fst (run_rounds exact n (reset m0, r))) ! i +
        (if r i \<le> win_prob m0 then current_bet (fst (run_rounds exact i (reset m0, r)))
         else - current_bet (fst (run_rounds exact i (reset m0, r))))) \<and>
   (simulate exact (reset m0) r = Some (m', r') \<and> i < rounds_played m' \<longrightarrow>
      balance_history m' ! Suc i =
      balance_history m' ! i +
        (if r i \<le> win_prob m0 then current_bet (fst (run_rounds exact i (reset m0, r)))
         else - current_bet (fst (run_rounds exact i (reset m0, r)))))"
proof (intro conjI impI)
  assume "loop_cond m"
  show "play_round rnd d m =
        (if d \<le> win_prob m
         then m\<lparr>balance := rnd (rnd (balance m - current_bet m) + rnd (2 * current_bet m)),
                current_bet := initial_bet m,
                balance_history := balance_history m @
                  [rnd (rnd (balance m - current_bet m) + rnd (2 * current_bet m))],
                rounds_played := rounds_played m + 1\<rparr>
         else m\<lparr>balance := rnd (balance m - current_bet m),
                current_bet := rnd (current_bet m * 2),
                balance_history := balance_history m @ [rnd (balance m - current_bet m)],
                rounds_played := rounds_played m + 1\<rparr>)"
    by (simp add: play_round_def Let_def)
next
  assume "loop_cond (fst (run_rounds rnd i (reset m0, r)))"
  then show "fst (run_rounds rnd (Suc i) (reset m0, r)) =
             play_round rnd (r i) (fst (run_rounds rnd i (reset m0, r)))"
    by (rule round_after_guard)
next
  assume "loop_cond (fst (run_rounds rnd i (reset m0, r))) \<and> i < n"
  then show "balance_history (fst (run_rounds rnd n (reset m0, r))) ! Suc i =
        (if r i \<le> win_prob m0
         then rnd (rnd (balance_history (fst (run_rounds rnd n (reset m0, r))) ! i -
                        current_bet (fst (run_rounds rnd i (reset m0, r)))) +
                   rnd (2 * current_bet (fst (run_rounds rnd i (reset m0, r)))))
         else rnd (balance_history (fst (run_rounds rnd n (reset m0, r))) ! i -
                   current_bet (fst (run_rounds rnd i (reset m0, r)))))"
    using history_step [of rnd i m0 r n] by blast
next
  assume a: "simulate rnd (reset m0) r = Some (m', r') \<and> i < rounds_played m'"
  then obtain k where "i < k" "m' = fst (run_rounds rnd k (reset m0, r))"
    "loop_cond (fst (run_rounds rnd i (reset m0, r)))"
    using completed_round_guard [of rnd m0 r m' r' i] by blast
  then show "balance_history m' ! Suc i =
        (if r i \<le> win_prob m0
         then rnd (rnd (balance_history m' ! i -
                        current_bet (fst (run_rounds rnd i (reset m0, r)))) +
                   rnd (2 * current_bet (fst (run_rounds rnd i (reset m0, r)))))
         else rnd (balance_history m' ! i -
                   current_bet (fst (run_rounds rnd i (reset m0, r)))))"
    using history_step [of rnd i m0 r k] by blast
next
  assume "loop_cond (fst (run_rounds exact i (reset m0, r))) \<and> i < n"
  then show "balance_history (fst (run_rounds exact n (reset m0, r))) ! Suc i =
      balance_history (fst (run_rounds exact n (reset m0, r))) ! i +
        (if r i \<le> win_prob m0 then current_bet (fst (run_rounds exact i (reset m0, r)))
         else - current_bet (fst (run_rounds exact i (reset m0, r))))"
    using history_step_exact [of i m0 r n] by blast
next
  assume a: "simulate exact (reset m0) r = Some (m', r') \<and> i < rounds_played m'"
  then obtain k where "i < k" "m' = fst (run_rounds exact k (reset m0, r))"
    "loop_cond (fst (run_rounds exact i (reset m0, r)))"
    using completed_round_guard [of exact m0 r m' r' i] by blast
  then show "balance_history m' ! Suc i =
      balance_history m' ! i +
        (if r i \<le> win_prob m0 then current_bet (fst (run_rounds exact i (reset m0, r)))
         else - current_bet (fst (run_rounds exact i (reset m0, r))))"
    using history_step_exact [of i m0 r k] by blast
qed

theorem round_transition_witness:
  "loop_cond (Martingale 100 (5764607523034235/576460752303423488) (1/2) (1/64)) \<and>
   play_round double_round 0 (Martingale 100 (5764607523034235/576460752303423488) (1/2) (1/64)) =
     \<lparr>initial_balance = 100, initial_bet = 5764607523034235/576460752303423488,
      win_prob = 1/2, table_limit = 1/64,
      balance = 439848631575511/4398046511104,
      current_bet = 5764607523034235/576460752303423488,
      balance_history = [100, 439848631575511/4398046511104], rounds_played = 1\<rparr> \<and>
   loop_cond (fst (run_rounds double_round (Suc 0)
     (reset (Martingale 100 (5764607523034235/576460752303423488) (1/2) (1/64)),
      list_rng [0] (9/10)))) \<and>
   Suc 0 < Suc (Suc 0) \<and>
   \<not> list_rng [0] (9/10) (Suc 0) \<le> 1/2 \<and>
   simulate double_round
     (reset (Martingale 100 (5764607523034235/576460752303423488) (1/2) (1/64)))
     (list_rng [0] (9/10)) =
     Some (\<lparr>initial_balance = 100, initial_bet = 5764607523034235/576460752303423488,
            win_prob = 1/2, table_limit = 1/64,
            balance = 7036874417766399/70368744177664,
            current_bet = 5764607523034235/288230376151711744,
            balance_history =
              [100, 439848631575511/4398046511104, 7036874417766399/70368744177664],
            rounds_played = 2\<rparr>,
           constant_rng (9/10)) \<and>
   double_round (439848631575511/4398046511104 - 5764607523034235/576460752303423488) =
     7036874417766399/70368744177664 \<and>
   loop_cond (fst (run_rounds exact (Suc 0) (reset (Martingale 10 1 (1/2) 3), list_rng [0] (9/10)))) \<and>
   Suc 0 < Suc (Suc (Suc 0)) \<and>
   simulate exact (reset (Martingale 10 1 (1/2) 3)) (list_rng [0] (9/10)) =
     Some (\<lparr>initial_balance = 10, initial_bet = 1, win_prob = 1/2, table_limit = 3,
            balance = 8, current_bet = 4, balance_history = [10, 11, 10, 8], rounds_played = 3\<rparr>,
           constant_rng (9/10)) \<and>
   current_bet (fst (run_rounds exact (Suc 0) (reset (Martingale 10 1 (1/2) 3), list_rng [0] (9/10)))) = 1 \<and>
   [10, 11, 10, 8 :: real] ! Suc (Suc 0) = [10, 11, 10, 8] ! Suc 0 + - 1"
  using round_transition [where rnd = double_round
      and m = "Martingale 100 (5764607523034235/576460752303423488) (1/2) (1/64)" and d = 0
      and i = "Suc 0"
      and ?m0.0 = "Martingale 100 (5764607523034235/576460752303423488) (1/2) (1/64)"
      and r = "list_rng [0] (9/10)" and n = "Suc (Suc 0)"
      and m' = "\<lparr>initial_balance = 100, initial_bet = 5764607523034235/576460752303423488,
            win_prob = 1/2, table_limit = 1/64,
            balance = 7036874417766399/70368744177664,
            current_bet = 5764607523034235/288230376151711744,
            balance_history =
              [100, 439848631575511/4398046511104, 7036874417766399/70368744177664],
            rounds_played = 2\<rparr>"
      and r' = "constant_rng (9/10)"]
    round_transition [where rnd = exact and m = "Martingale 10 1 (1/2) 3" and d = 0
      and i = "Suc 0" and ?m0.0 = "Martingale 10 1 (1/2) 3" and r = "list_rng [0] (9/10)"
      and n = "Suc (Suc (Suc 0))"
      and m' = "\<lparr>initial_balance = 10, initial_bet = 1, win_prob = 1/2, table_limit = 3,
            balance = 8, current_bet = 4, balance_history = [10, 11, 10, 8], rounds_played = 3\<rparr>"
      and r' = "constant_rng (9/10)"]
  by (simp add: run_defs)

text \<open>
  The claim as stated, entry \<open>i + 1\<close> equal to entry \<open>i\<close> plus the bet after a win,
  fails for floats. With the balance 100.0 and the bet 0.01, which as a double is
  5764607523034235 / 2^59, a won first round stores 100.00999999999999, and the sum
  of the first entry and the bet is 100.01 as a double and is no double at all when it is
  taken exactly.
\<close>

theorem round_transition_counterexample:
  "double_round (1/100) = 5764607523034235/576460752303423488 \<and>
   loop_cond (Martingale 100 (5764607523034235/576460752303423488) (1/2) 8) \<and>
   constant_rng 0 0 \<le> win_prob (Martingale 100 (5764607523034235/576460752303423488) (1/2) 8) \<and>
   balance_history (fst (run_rounds double_round (Suc 0)
     (Martingale 100 (5764607523034235/576460752303423488) (1/2) 8, constant_rng 0))) =
     [100, 439848631575511/4398046511104] \<and>
   double_round (100 + 5764607523034235/576460752303423488) = 7037578105208177/70368744177664 \<and>
   balance_history (fst (run_rounds double_round (Suc 0)
     (Martingale 100 (5764607523034235/576460752303423488) (1/2) 8, constant_rng 0))) ! Suc 0 \<noteq>
   double_round
    (balance_history (fst (run_rounds double_round (Suc 0)
       (Martingale 100 (5764607523034235/576460752303423488) (1/2) 8, constant_rng 0))) ! 0 +
     current_bet (Martingale 100 (5764607523034235/576460752303423488) (1/2) 8)) \<and>
   balance_history (fst (run_rounds double_round (Suc 0)
     (Martingale 100 (5764607523034235/576460752303423488) (1/2) 8, constant_rng 0))) ! Suc 0 \<noteq>
   balance_history (fst (run_rounds double_round (Suc 0)
     (Martingale 100 (5764607523034235/576460752303423488) (1/2) 8, constant_rng 0))) ! 0 +
   current_bet (Martingale 100 (5764607523034235/576460752303423488) (1/2) 8)"
  by (simp add: run_defs)

text \<open>
  C2: the body of the loop runs exactly when the balance covers the current bet and the
  table limit admits it, tested before each round, and nothing else stops the loop: it
  returns the first state in which the test fails, as that state is, and it never returns
  while the test keeps holding. In the returned object the balance is below the current
  bet or the table limit is below the current bet.
\<close>

theorem simulate_stops_when_guard_fails:
  "simulate rnd m r =
     (if loop_cond m then simulate rnd (play_round rnd (r 0) m) (\<lambda>n. r (Suc n))
      else Some (m, r)) \<and>
   (simulate rnd m r = Some (m', r') \<longrightarrow>
      (balance m' < current_bet m' \<or> table_limit m' < current_bet m') \<and>
      (\<exists>n. (m', r') = run_rounds rnd n (m, r) \<and>
           (\<forall>k<n. loop_cond (fst (run_rounds rnd k (m, r)))))) \<and>
   (\<not> loop_cond (fst (run_rounds rnd n (m, r))) \<longrightarrow>
      simulate rnd m r = Some (run_rounds rnd n (m, r))) \<and>
   ((\<forall>k. loop_cond (fst (run_rounds rnd k (m, r)))) \<longrightarrow> simulate rnd m r = None)"
proof (intro conjI impI)
  show "simulate rnd m r =
     (if loop_cond m then simulate rnd (play_round rnd (r 0) m) (\<lambda>n. r (Suc n))
      else Some (m, r))"
    by (rule simulate_unfold)
next
  assume a: "simulate rnd m r = Some (m', r')"
  from simulate_Some_first_stop [OF a] obtain n
    where n: "(m', r') = run_rounds rnd n (m, r)" "\<not> loop_cond m'"
      "\<forall>k<n. loop_cond (fst (run_rounds rnd k (m, r)))" by auto
  from n(2) show "balance m' < current_bet m' \<or> table_limit m' < current_bet m'"
    by (simp add: loop_cond_fails)
  from n(1,3) show "\<exists>n. (m', r') = run_rounds rnd n (m, r) \<and>
      (\<forall>k<n. loop_cond (fst (run_rounds rnd k (m, r))))" by blast
next
  assume "\<not> loop_cond (fst (run_rounds rnd n (m, r)))"
  then show "simulate rnd m r = Some (run_rounds rnd n (m, r))" by (rule simulate_stops)
next
  assume "\<forall>k. loop_cond (fst (run_rounds rnd k (m, r)))"
  then show "simulate rnd m r = None" by (simp add: simulate_None)
qed

theorem simulate_stops_when_guard_fails_witness:
  "simulate double_round (Martingale 10 1 (1/2) 3) (list_rng [0] (9/10)) =
     Some (\<lparr>initial_balance = 10, initial_bet = 1, win_prob = 1/2, table_limit = 3,
            balance = 8, current_bet = 4, balance_history = [10, 11, 10, 8], rounds_played = 3\<rparr>,
           constant_rng (9/10)) \<and>
   (3::real) < 4 \<and>
   \<not> loop_cond (fst (run_rounds double_round (Suc (Suc (Suc 0)))
        (Martingale 10 1 (1/2) 3, list_rng [0] (9/10)))) \<and>
   (\<forall>k. loop_cond (fst (run_rounds double_round k
        (reset (Martingale 100 1 (1/2) 8), constant_rng 0)))) \<and>
   simulate double_round (reset (Martingale 100 1 (1/2) 8)) (constant_rng 0) = None"
proof -
  have one: "double_round 1 = 1" by (simp add: float_defs)
  have a: "\<forall>k. loop_cond (fst (run_rounds double_round k
        (reset (Martingale 100 1 (1/2) 8), constant_rng 0)))"
    using always_winning_never_stops [where rnd = double_round
        and m = "Martingale 100 1 (1/2) 8" and r = "constant_rng 0"] one
    by (simp add: Martingale_fields constant_rng_def rounding_double_round)
  have b: "simulate double_round (reset (Martingale 100 1 (1/2) 8)) (constant_rng 0) = None"
    using a simulate_stops_when_guard_fails
      [where rnd = double_round and m = "reset (Martingale 100 1 (1/2) 8)"
        and r = "constant_rng 0"]
    by blast
  have c: "simulate double_round (Martingale 10 1 (1/2) 3) (list_rng [0] (9/10)) =
     Some (\<lparr>initial_balance = 10, initial_bet = 1, win_prob = 1/2, table_limit = 3,
            balance = 8, current_bet = 4, balance_history = [10, 11, 10, 8], rounds_played = 3\<rparr>,
           constant_rng (9/10)) \<and>
     \<not> loop_cond (fst (run_rounds double_round (Suc (Suc (Suc 0)))
        (Martingale 10 1 (1/2) 3, list_rng [0] (9/10))))"
    using simulate_stops_when_guard_fails
      [where rnd = double_round and m = "Martingale 10 1 (1/2) 3"
        and r = "list_rng [0] (9/10)" and n = "Suc (Suc (Suc 0))"]
    by (simp add: run_defs)
  show ?thesis using a b c by simp
qed

text \<open>
  C3, as amended: the loop has no round cap, and a win puts the bet back to the initial
  bet, so the rounds are bounded only along a losing streak. With a positive initial bet,
  if rounds \<open>j + 1\<close> to \<open>j + K\<close> are all lost, where \<open>K\<close> doublings take the
  initial bet above the table limit (or, for a streak from the first round on, above the
  initial balance), simulate returns after at most \<open>j + K\<close> rounds. On a sequence of
  wins only, with an initial bet that the initial balance and the table limit admit, it
  never returns. Both hold in exact arithmetic and in the rounded one, for parameters that
  are numbers of the type.
\<close>

theorem simulate_halts_on_losing_streak:
  "(rounding rnd \<and> rnd (initial_bet m) = initial_bet m \<and>
    0 < initial_bet m \<and> (\<forall>k<K. win_prob m < r (j + k)) \<and>
    (table_limit m < initial_bet m * 2 ^ K \<or>
     (j = 0 \<and> rnd (initial_balance m) = initial_balance m \<and>
      initial_balance m < initial_bet m * 2 ^ K))
    \<longrightarrow> (\<exists>m' r'. simulate rnd (reset m) r = Some (m', r') \<and> rounds_played m' \<le> j + K)) \<and>
   (rounding rnd \<and> rnd (initial_bet m) = initial_bet m \<and>
    0 \<le> initial_bet m \<and> initial_bet m \<le> initial_balance m \<and> initial_bet m \<le> table_limit m \<and>
    (\<forall>k. r k \<le> win_prob m)
    \<longrightarrow> simulate rnd (reset m) r = None) \<and>
   rounding exact \<and> rounding double_round \<and> exact x = x"
proof (intro conjI impI)
  assume a: "rounding rnd \<and> rnd (initial_bet m) = initial_bet m \<and>
    0 < initial_bet m \<and> (\<forall>k<K. win_prob m < r (j + k)) \<and>
    (table_limit m < initial_bet m * 2 ^ K \<or>
     (j = 0 \<and> rnd (initial_balance m) = initial_balance m \<and>
      initial_balance m < initial_bet m * 2 ^ K))"
  then have "\<not> loop_cond (fst (run_rounds rnd (j + K) (reset m, r)))"
    using losing_streak_stops [where rnd = rnd and m = m and K = K and r = r and j = j]
    by blast
  then have "simulate rnd (reset m) r = Some (run_rounds rnd (j + K) (reset m, r))"
    by (rule simulate_stops)
  moreover have "rounds_played (fst (run_rounds rnd (j + K) (reset m, r))) \<le> j + K"
    using rounds_played_le [of rnd "j + K" "(reset m, r)"] by (simp add: reset_fields)
  ultimately show "\<exists>m' r'. simulate rnd (reset m) r = Some (m', r') \<and>
      rounds_played m' \<le> j + K"
    by (metis prod.collapse)
next
  assume "rounding rnd \<and> rnd (initial_bet m) = initial_bet m \<and>
    0 \<le> initial_bet m \<and> initial_bet m \<le> initial_balance m \<and>
    initial_bet m \<le> table_limit m \<and> (\<forall>k. r k \<le> win_prob m)"
  then show "simulate rnd (reset m) r = None" by (simp add: always_winning_diverges)
next
  show "rounding exact" by (rule rounding_exact)
  show "rounding double_round" by (rule rounding_double_round)
  show "exact x = x" by (simp add: exact_def)
qed

theorem simulate_halts_on_losing_streak_witness:
  "rounding double_round \<and>
   double_round (initial_bet (Martingale 100 1 (1/2) 8)) = initial_bet (Martingale 100 1 (1/2) 8) \<and>
   0 < initial_bet (Martingale 100 1 (1/2) 8) \<and>
   win_prob (Martingale 100 1 (1/2) 8) < list_rng [0] (9/10) (1 + 0) \<and>
   win_prob (Martingale 100 1 (1/2) 8) < list_rng [0] (9/10) (1 + 1) \<and>
   win_prob (Martingale 100 1 (1/2) 8) < list_rng [0] (9/10) (1 + 2) \<and>
   win_prob (Martingale 100 1 (1/2) 8) < list_rng [0] (9/10) (1 + 3) \<and>
   table_limit (Martingale 100 1 (1/2) 8) < initial_bet (Martingale 100 1 (1/2) 8) * 2 ^ 4 \<and>
   simulate double_round (reset (Martingale 100 1 (1/2) 8)) (list_rng [0] (9/10)) =
     Some (\<lparr>initial_balance = 100, initial_bet = 1, win_prob = 1/2, table_limit = 8,
            balance = 86, current_bet = 16, balance_history = [100, 101, 100, 98, 94, 86],
            rounds_played = 5\<rparr>, constant_rng (9/10)) \<and>
   (5::nat) \<le> 1 + 4 \<and>
   initial_bet (Martingale 100 1 (1/2) 8) \<le> initial_balance (Martingale 100 1 (1/2) 8) \<and>
   initial_bet (Martingale 100 1 (1/2) 8) \<le> table_limit (Martingale 100 1 (1/2) 8) \<and>
   (\<forall>k. constant_rng 0 k \<le> win_prob (Martingale 100 1 (1/2) 8)) \<and>
   simulate double_round (reset (Martingale 100 1 (1/2) 8)) (constant_rng 0) = None"
proof -
  have one: "double_round 1 = 1" by (simp add: float_defs)
  have rd: "rounding double_round"
    using simulate_halts_on_losing_streak [where rnd = double_round] by blast
  have a: "simulate double_round (reset (Martingale 100 1 (1/2) 8)) (constant_rng 0) = None"
    using simulate_halts_on_losing_streak [where rnd = double_round
        and m = "Martingale 100 1 (1/2) 8" and r = "constant_rng 0"] one rd
    by (simp add: Martingale_fields constant_rng_def)
  have b: "simulate double_round (reset (Martingale 100 1 (1/2) 8)) (list_rng [0] (9/10)) =
     Some (\<lparr>initial_balance = 100, initial_bet = 1, win_prob = 1/2, table_limit = 8,
            balance = 86, current_bet = 16, balance_history = [100, 101, 100, 98, 94, 86],
            rounds_played = 5\<rparr>, constant_rng (9/10))"
    using simulate_halts_on_losing_streak [where rnd = double_round
        and m = "Martingale 100 1 (1/2) 8" and r = "list_rng [0] (9/10)" and j = 1 and K = 4]
    by (simp add: run_defs)
  show ?thesis using a b one rd by (simp add: Martingale_fields list_rng_def constant_rng_def)
qed

text \<open>
  The claim as stated, for every sequence of outcomes, fails on the sequence of wins: with
  balance 100, bet 1, win probability 1/2 and table limit 8, a generator that keeps
  returning 0 makes every round a win, and simulate never returns, whether the numbers are
  ints or floats.
\<close>

theorem simulate_all_wins_counterexample:
  "simulate exact (Martingale 100 1 (1/2) 8) (constant_rng 0) = None \<and>
   simulate double_round (Martingale 100 1 (1/2) 8) (constant_rng 0) = None"
proof -
  have one: "double_round 1 = 1" by (simp add: float_defs)
  have "simulate exact (reset (Martingale 100 1 (1/2) 8)) (constant_rng 0) = None"
    using always_winning_diverges [where rnd = exact and m = "Martingale 100 1 (1/2) 8"
        and r = "constant_rng 0"]
    by (simp add: Martingale_fields constant_rng_def rounding_exact exact_def)
  moreover have "simulate double_round (reset (Martingale 100 1 (1/2) 8)) (constant_rng 0) = None"
    using always_winning_diverges [where rnd = double_round and m = "Martingale 100 1 (1/2) 8"
        and r = "constant_rng 0"] one
    by (simp add: Martingale_fields constant_rng_def rounding_double_round)
  ultimately show ?thesis by (simp add: Martingale_def reset_def)
qed

text \<open>
  C4: the history has one entry more than rounds were played and starts with the initial
  balance. This holds after construction and after every reset, each round keeps it, and so
  it holds in every state of a run and in every object that simulate returns.
\<close>

theorem history_invariant:
  "history_inv (Martingale ib ibet wp tlim) \<and>
   history_inv (reset m) \<and>
   (history_inv m \<longrightarrow> history_inv (play_round rnd d m)) \<and>
   (history_inv m \<longrightarrow> history_inv (fst (run_rounds rnd n (m, r)))) \<and>
   (history_inv m \<and> simulate rnd m r = Some (m', r') \<longrightarrow> history_inv m') \<and>
   (simulate rnd (reset m) r = Some (m', r') \<longrightarrow> history_inv m')"
proof (intro conjI impI)
  show "history_inv (Martingale ib ibet wp tlim)"
    by (simp add: history_inv_def Martingale_fields)
  show "history_inv (reset m)" by (rule history_inv_reset)
next
  assume "history_inv m"
  then show "history_inv (play_round rnd d m)" by (rule history_inv_play_round)
next
  assume "history_inv m"
  then show "history_inv (fst (run_rounds rnd n (m, r)))" by (rule history_inv_run_rounds)
next
  assume a: "history_inv m \<and> simulate rnd m r = Some (m', r')"
  then obtain k where "(m', r') = run_rounds rnd k (m, r)"
    using simulate_Some_stopped [of rnd m r "(m', r')"] by blast
  then have "m' = fst (run_rounds rnd k (m, r))" by (metis fst_conv)
  then show "history_inv m'" using a history_inv_run_rounds [of m rnd k r] by simp
next
  assume a: "simulate rnd (reset m) r = Some (m', r')"
  then obtain k where "(m', r') = run_rounds rnd k (reset m, r)"
    using simulate_Some_stopped [of rnd "reset m" r "(m', r')"] by blast
  then have "m' = fst (run_rounds rnd k (reset m, r))" by (metis fst_conv)
  then show "history_inv m'"
    using history_inv_run_rounds [of "reset m" rnd k r] by (simp add: history_inv_reset)
qed

theorem history_invariant_witness:
  "history_inv (Martingale 10 1 (1/2) 3) \<and>
   history_inv (play_round double_round 0 (Martingale 10 1 (1/2) 3)) \<and>
   simulate double_round (Martingale 10 1 (1/2) 3) (list_rng [0] (9/10)) =
     Some (\<lparr>initial_balance = 10, initial_bet = 1, win_prob = 1/2, table_limit = 3,
            balance = 8, current_bet = 4, balance_history = [10, 11, 10, 8], rounds_played = 3\<rparr>,
           constant_rng (9/10)) \<and>
   history_inv \<lparr>initial_balance = 10, initial_bet = 1, win_prob = 1/2, table_limit = 3,
            balance = 8, current_bet = 4, balance_history = [10, 11, 10, 8], rounds_played = 3\<rparr>"
  using history_invariant [where rnd = double_round and m = "Martingale 10 1 (1/2) 3" and d = 0
      and r = "list_rng [0] (9/10)" and ib = 10 and ibet = 1 and wp = "1/2" and tlim = 3
      and m' = "\<lparr>initial_balance = 10, initial_bet = 1, win_prob = 1/2, table_limit = 3,
            balance = 8, current_bet = 4, balance_history = [10, 11, 10, 8], rounds_played = 3\<rparr>"
      and r' = "constant_rng (9/10)"]
  by (simp add: run_defs history_inv_def)

text \<open>
  C5: in every state of a run from a reset process the current bet is the initial bet times
  two to the number of losses in a row since the last win or the start. At the start of
  round \<open>n + 1\<close> exactly \<open>n\<close> rounds have been played, the round takes the draw
  \<open>r n\<close>, and the count is 0 at the start and after every win and grows by one with
  every loss. The arithmetic is one that doubles without rounding, as the exact one and the
  rounded one do, and the initial bet is a number of its type.
\<close>

theorem current_bet_doubles_per_loss:
  "(rounding rnd \<and> rnd (initial_bet m) = initial_bet m \<longrightarrow>
      current_bet (fst (run_rounds rnd n (reset m, r))) =
        initial_bet m * 2 ^ consecutive_losses (win_prob m) r
                              (rounds_played (fst (run_rounds rnd n (reset m, r))))) \<and>
   (loop_cond (fst (run_rounds rnd n (reset m, r))) \<longrightarrow>
      rounds_played (fst (run_rounds rnd n (reset m, r))) = n \<and>
      fst (run_rounds rnd (Suc n) (reset m, r)) =
        play_round rnd (r n) (fst (run_rounds rnd n (reset m, r)))) \<and>
   (rounding rnd \<and> rnd (initial_bet m) = initial_bet m \<and>
    loop_cond (fst (run_rounds rnd n (reset m, r))) \<longrightarrow>
      current_bet (fst (run_rounds rnd n (reset m, r))) =
        initial_bet m * 2 ^ consecutive_losses (win_prob m) r n) \<and>
   consecutive_losses (win_prob m) r 0 = 0 \<and>
   (r n \<le> win_prob m \<longrightarrow> consecutive_losses (win_prob m) r (Suc n) = 0) \<and>
   (\<not> r n \<le> win_prob m \<longrightarrow>
      consecutive_losses (win_prob m) r (Suc n) = consecutive_losses (win_prob m) r n + 1) \<and>
   rounding exact \<and> rounding double_round \<and> exact x = x"
proof -
  have 1: "current_bet (fst (run_rounds rnd n (reset m, r))) =
     initial_bet m * 2 ^ consecutive_losses (win_prob m) r
                           (rounds_played (fst (run_rounds rnd n (reset m, r))))"
    if "rounding rnd" "rnd (initial_bet m) = initial_bet m"
    using bet_track_run_rounds [OF that, of r n] by (simp add: bet_track_def)
  have 2: "rounds_played (fst (run_rounds rnd n (reset m, r))) = n"
    if "loop_cond (fst (run_rounds rnd n (reset m, r)))"
    using that by (rule played_before_guard)
  have 3: "fst (run_rounds rnd (Suc n) (reset m, r)) =
      play_round rnd (r n) (fst (run_rounds rnd n (reset m, r)))"
    if "loop_cond (fst (run_rounds rnd n (reset m, r)))"
    using that by (rule round_after_guard)
  show ?thesis
    using 1 2 3 rounding_exact rounding_double_round by (simp add: exact_def)
qed

theorem current_bet_doubles_per_loss_witness:
  "rounding double_round \<and>
   double_round (initial_bet (Martingale 10 1 (1/2) 3)) = initial_bet (Martingale 10 1 (1/2) 3) \<and>
   loop_cond (fst (run_rounds double_round (Suc (Suc 0))
     (reset (Martingale 10 1 (1/2) 3), list_rng [0] (9/10)))) \<and>
   list_rng [0] (9/10) 0 \<le> 1/2 \<and>
   \<not> list_rng [0] (9/10) (Suc 0) \<le> 1/2 \<and>
   consecutive_losses (1/2) (list_rng [0] (9/10)) (Suc (Suc 0)) = 1 \<and>
   current_bet (fst (run_rounds double_round (Suc (Suc 0))
     (reset (Martingale 10 1 (1/2) 3), list_rng [0] (9/10)))) = 1 * 2 ^ 1"
  using current_bet_doubles_per_loss [where rnd = double_round and m = "Martingale 10 1 (1/2) 3"
      and r = "list_rng [0] (9/10)" and n = "Suc (Suc 0)"]
    current_bet_doubles_per_loss [where rnd = double_round and m = "Martingale 10 1 (1/2) 3"
      and r = "list_rng [0] (9/10)" and n = 0]
    current_bet_doubles_per_loss [where rnd = double_round and m = "Martingale 10 1 (1/2) 3"
      and r = "list_rng [0] (9/10)" and n = "Suc 0"]
  by (simp add: run_defs)

text \<open>
  C6: \<open>reset\<close> sets balance to the initial balance, the current bet to the initial bet,
  the history to the one-element list of the initial balance and the round counter to 0,
  whatever the mutable fields held before, leaves the four parameters alone, and a second
  call right after the first changes nothing.
\<close>

theorem reset_idempotent:
  "balance (reset m) = initial_balance m \<and>
   current_bet (reset m) = initial_bet m \<and>
   balance_history (reset m) = [initial_balance m] \<and>
   rounds_played (reset m) = 0 \<and>
   reset (m\<lparr>balance := b, current_bet := c, balance_history := h, rounds_played := k\<rparr>) = reset m \<and>
   reset (reset m) = reset m"
  by (simp add: reset_def)

text \<open>
  C7, as amended: run_simulations returns exactly when each of its runs returns. Then the
  result has one process per pass of the comprehension, in the order of construction: the
  process at index \<open>i\<close> is what simulate returns for a fresh process with the four
  given parameters, started on the generator as run \<open>i - 1\<close> left it (the first on the
  generator as the call found it). Every process in the result carries the four parameters
  and has run until its loop condition failed. A count below 1 gives the empty list.
\<close>

theorem run_simulations_result:
  "(run_simulations rnd ib ibet wp tlim sim_count r = Some (ms, r') \<longleftrightarrow>
      (\<exists>rs. length rs = nat sim_count + 1 \<and> length ms = nat sim_count \<and>
            rs ! 0 = r \<and> rs ! nat sim_count = r' \<and>
            (\<forall>i<nat sim_count.
               simulate rnd (Martingale ib ibet wp tlim) (rs ! i) = Some (ms ! i, rs ! Suc i)))) \<and>
   (run_simulations rnd ib ibet wp tlim sim_count r = Some (ms, r') \<longrightarrow>
      length ms = nat sim_count \<and>
      (\<forall>m\<in>set ms. initial_balance m = ib \<and> initial_bet m = ibet \<and> win_prob m = wp \<and>
                   table_limit m = tlim \<and> \<not> loop_cond m))"
proof (intro conjI impI)
  show iff: "run_simulations rnd ib ibet wp tlim sim_count r = Some (ms, r') \<longleftrightarrow>
      (\<exists>rs. length rs = nat sim_count + 1 \<and> length ms = nat sim_count \<and>
            rs ! 0 = r \<and> rs ! nat sim_count = r' \<and>
            (\<forall>i<nat sim_count.
               simulate rnd (Martingale ib ibet wp tlim) (rs ! i) = Some (ms ! i, rs ! Suc i)))"
    unfolding run_simulations_def by (rule comprehension_iff)
  assume "run_simulations rnd ib ibet wp tlim sim_count r = Some (ms, r')"
  then obtain rs where rs: "length ms = nat sim_count"
    "\<forall>i<nat sim_count.
       simulate rnd (Martingale ib ibet wp tlim) (rs ! i) = Some (ms ! i, rs ! Suc i)"
    unfolding iff by blast
  show "length ms = nat sim_count" by (rule rs(1))
  show "\<forall>m\<in>set ms. initial_balance m = ib \<and> initial_bet m = ibet \<and> win_prob m = wp \<and>
                   table_limit m = tlim \<and> \<not> loop_cond m"
  proof
    fix m assume "m \<in> set ms"
    then obtain i where i: "i < length ms" "m = ms ! i" by (auto simp add: in_set_conv_nth)
    then have "simulate rnd (Martingale ib ibet wp tlim) (rs ! i) = Some (m, rs ! Suc i)"
      using rs by simp
    from simulate_result_fields [OF this]
    show "initial_balance m = ib \<and> initial_bet m = ibet \<and> win_prob m = wp \<and>
          table_limit m = tlim \<and> \<not> loop_cond m"
      by (simp add: Martingale_fields)
  qed
qed

theorem run_simulations_result_witness:
  "run_simulations double_round 10 1 (1/2) 3 2 (list_rng [0] (9/10)) =
     Some ([\<lparr>initial_balance = 10, initial_bet = 1, win_prob = 1/2, table_limit = 3,
             balance = 8, current_bet = 4, balance_history = [10, 11, 10, 8], rounds_played = 3\<rparr>,
            \<lparr>initial_balance = 10, initial_bet = 1, win_prob = 1/2, table_limit = 3,
             balance = 7, current_bet = 4, balance_history = [10, 9, 7], rounds_played = 2\<rparr>],
           constant_rng (9/10)) \<and>
   simulate double_round (Martingale 10 1 (1/2) 3) (list_rng [0] (9/10)) =
     Some (\<lparr>initial_balance = 10, initial_bet = 1, win_prob = 1/2, table_limit = 3,
             balance = 8, current_bet = 4, balance_history = [10, 11, 10, 8], rounds_played = 3\<rparr>,
           constant_rng (9/10)) \<and>
   simulate double_round (Martingale 10 1 (1/2) 3) (constant_rng (9/10)) =
     Some (\<lparr>initial_balance = 10, initial_bet = 1, win_prob = 1/2, table_limit = 3,
             balance = 7, current_bet = 4, balance_history = [10, 9, 7], rounds_played = 2\<rparr>,
           constant_rng (9/10)) \<and>
   (\<exists>rs. length rs = nat 2 + 1 \<and> rs ! 0 = list_rng [0] (9/10) \<and> rs ! nat 2 = constant_rng (9/10))"
proof -
  have L: "run_simulations double_round 10 1 (1/2) 3 2 (list_rng [0] (9/10)) =
     Some ([\<lparr>initial_balance = 10, initial_bet = 1, win_prob = 1/2, table_limit = 3,
             balance = 8, current_bet = 4, balance_history = [10, 11, 10, 8], rounds_played = 3\<rparr>,
            \<lparr>initial_balance = 10, initial_bet = 1, win_prob = 1/2, table_limit = 3,
             balance = 7, current_bet = 4, balance_history = [10, 9, 7], rounds_played = 2\<rparr>],
           constant_rng (9/10))"
    by (simp add: run_simulations_def numeral_2_eq_2 run_defs)
  have S: "simulate double_round (Martingale 10 1 (1/2) 3) (list_rng [0] (9/10)) =
     Some (\<lparr>initial_balance = 10, initial_bet = 1, win_prob = 1/2, table_limit = 3,
             balance = 8, current_bet = 4, balance_history = [10, 11, 10, 8], rounds_played = 3\<rparr>,
           constant_rng (9/10)) \<and>
   simulate double_round (Martingale 10 1 (1/2) 3) (constant_rng (9/10)) =
     Some (\<lparr>initial_balance = 10, initial_bet = 1, win_prob = 1/2, table_limit = 3,
             balance = 7, current_bet = 4, balance_history = [10, 9, 7], rounds_played = 2\<rparr>,
           constant_rng (9/10))"
    by (simp add: run_defs)
  have "\<exists>rs. length rs = nat 2 + 1 \<and> rs ! 0 = list_rng [0] (9/10) \<and>
             rs ! nat 2 = constant_rng (9/10)"
    using L run_simulations_result [where rnd = double_round and ib = 10 and ibet = 1
        and wp = "1/2" and tlim = 3
        and sim_count = 2 and r = "list_rng [0] (9/10)"
        and ms = "[\<lparr>initial_balance = 10, initial_bet = 1, win_prob = 1/2, table_limit = 3,
             balance = 8, current_bet = 4, balance_history = [10, 11, 10, 8], rounds_played = 3\<rparr>,
            \<lparr>initial_balance = 10, initial_bet = 1, win_prob = 1/2, table_limit = 3,
             balance = 7, current_bet = 4, balance_history = [10, 9, 7], rounds_played = 2\<rparr>]"
        and r' = "constant_rng (9/10)"]
    by blast
  with L S show ?thesis by blast
qed

text \<open>
  The claim as stated promises a result for every call; with win probability 1 every draw
  wins, the first run never returns, and neither does run_simulations, whether the numbers
  are ints or floats.
\<close>

theorem run_simulations_counterexample:
  "run_simulations exact 100 1 1 8 1 (constant_rng 0) = None \<and>
   run_simulations double_round 100 1 1 8 1 (constant_rng 0) = None"
proof -
  have one: "double_round 1 = 1" by (simp add: float_defs)
  have "simulate exact (reset (Martingale 100 1 1 8)) (constant_rng 0) = None"
    using always_winning_diverges [where rnd = exact and m = "Martingale 100 1 1 8"
        and r = "constant_rng 0"]
    by (simp add: Martingale_fields constant_rng_def rounding_exact exact_def)
  moreover have "simulate double_round (reset (Martingale 100 1 1 8)) (constant_rng 0) = None"
    using always_winning_diverges [where rnd = double_round and m = "Martingale 100 1 1 8"
        and r = "constant_rng 0"] one
    by (simp add: Martingale_fields constant_rng_def rounding_double_round)
  ultimately show ?thesis by (simp add: run_simulations_def Martingale_def reset_def)
qed

text \<open>
  C8: a round takes the next draw of the generator, and it is settled as a win exactly when
  that draw is at most the win probability, as a loss otherwise. Nothing else of the draw
  reaches the process: two draws on the same side of the win probability leave the same
  state.
\<close>

theorem trial_decides_round:
  "loop_body rnd (m, r) = (play_round rnd (r 0) m, \<lambda>n. r (Suc n)) \<and>
   (d \<le> win_prob m \<longrightarrow>
      play_round rnd d m =
        m\<lparr>balance := rnd (rnd (balance m - current_bet m) + rnd (2 * current_bet m)),
          current_bet := initial_bet m,
          balance_history := balance_history m @
            [rnd (rnd (balance m - current_bet m) + rnd (2 * current_bet m))],
          rounds_played := rounds_played m + 1\<rparr>) \<and>
   (\<not> d \<le> win_prob m \<longrightarrow>
      play_round rnd d m =
        m\<lparr>balance := rnd (balance m - current_bet m),
          current_bet := rnd (current_bet m * 2),
          balance_history := balance_history m @ [rnd (balance m - current_bet m)],
          rounds_played := rounds_played m + 1\<rparr>) \<and>
   ((d \<le> win_prob m) = (d' \<le> win_prob m) \<longrightarrow> play_round rnd d m = play_round rnd d' m)"
  by (simp add: loop_body_eq play_round_def Let_def)

theorem trial_decides_round_witness:
  "(0::real) \<le> 1/2 \<and>
   play_round double_round 0 (Martingale 10 1 (1/2) 3) =
     \<lparr>initial_balance = 10, initial_bet = 1, win_prob = 1/2, table_limit = 3,
      balance = 11, current_bet = 1, balance_history = [10, 11], rounds_played = 1\<rparr> \<and>
   \<not> (9/10::real) \<le> 1/2 \<and>
   play_round double_round (9/10) (Martingale 10 1 (1/2) 3) =
     \<lparr>initial_balance = 10, initial_bet = 1, win_prob = 1/2, table_limit = 3,
      balance = 9, current_bet = 2, balance_history = [10, 9], rounds_played = 1\<rparr> \<and>
   (((0::real) \<le> 1/2) = ((1/4::real) \<le> 1/2)) \<and>
   play_round double_round 0 (Martingale 10 1 (1/2) 3) =
     play_round double_round (1/4) (Martingale 10 1 (1/2) 3)"
  using trial_decides_round [where rnd = double_round and m = "Martingale 10 1 (1/2) 3"
      and d = 0 and d' = "1/4"]
    trial_decides_round [where rnd = double_round and m = "Martingale 10 1 (1/2) 3"
      and d = "9/10" and d' = "9/10"]
  by (simp add: run_defs)

text \<open>
  C9: for a process with a non-negative initial balance and a non-negative initial bet the
  balance is never negative in a run from the reset state: not in any state between rounds,
  not after the stake has been subtracted inside a round, and no entry of the history is
  negative, in particular none in the returned object. This holds in exact arithmetic and
  in the rounded one.
\<close>

theorem balance_never_negative:
  assumes "rounding rnd" and "0 \<le> initial_balance m" and "0 \<le> initial_bet m"
  shows "0 \<le> balance (fst (run_rounds rnd n (reset m, r))) \<and>
         (\<forall>x\<in>set (balance_history (fst (run_rounds rnd n (reset m, r)))). 0 \<le> x) \<and>
         (loop_cond (fst (run_rounds rnd n (reset m, r))) \<longrightarrow>
            0 \<le> balance (fst (run_rounds rnd n (reset m, r))) -
                  current_bet (fst (run_rounds rnd n (reset m, r))) \<and>
            0 \<le> rnd (balance (fst (run_rounds rnd n (reset m, r))) -
                       current_bet (fst (run_rounds rnd n (reset m, r))))) \<and>
         (simulate rnd (reset m) r = Some (m', r') \<longrightarrow>
            0 \<le> balance m' \<and> (\<forall>x\<in>set (balance_history m'). 0 \<le> x)) \<and>
         rounding exact \<and> rounding double_round"
proof (intro conjI impI)
  show "0 \<le> balance (fst (run_rounds rnd n (reset m, r)))"
    and "\<forall>x\<in>set (balance_history (fst (run_rounds rnd n (reset m, r)))). 0 \<le> x"
    using nonneg_run_rounds [OF assms, of n r] by simp_all
next
  assume g: "loop_cond (fst (run_rounds rnd n (reset m, r)))"
  then show "0 \<le> balance (fst (run_rounds rnd n (reset m, r))) -
                  current_bet (fst (run_rounds rnd n (reset m, r)))"
    by (simp add: loop_cond_def)
  then show "0 \<le> rnd (balance (fst (run_rounds rnd n (reset m, r))) -
                       current_bet (fst (run_rounds rnd n (reset m, r))))"
    using assms(1) by (rule rounding_nonneg [rotated])
next
  assume "simulate rnd (reset m) r = Some (m', r')"
  then obtain k where "(m', r') = run_rounds rnd k (reset m, r)"
    using simulate_Some_stopped [of rnd "reset m" r "(m', r')"] by blast
  then have m': "m' = fst (run_rounds rnd k (reset m, r))" by (metis fst_conv)
  show "0 \<le> balance m'" and "\<forall>x\<in>set (balance_history m'). 0 \<le> x"
    using nonneg_run_rounds [OF assms, of k r] m' by simp_all
next
  show "rounding exact" by (rule rounding_exact)
  show "rounding double_round" by (rule rounding_double_round)
qed

theorem balance_never_negative_witness:
  "rounding double_round \<and>
   0 \<le> initial_balance (Martingale 10 1 (1/2) 3) \<and>
   0 \<le> initial_bet (Martingale 10 1 (1/2) 3) \<and>
   loop_cond (fst (run_rounds double_round (Suc (Suc 0))
     (reset (Martingale 10 1 (1/2) 3), list_rng [0] (9/10)))) \<and>
   simulate double_round (reset (Martingale 10 1 (1/2) 3)) (list_rng [0] (9/10)) =
     Some (\<lparr>initial_balance = 10, initial_bet = 1, win_prob = 1/2, table_limit = 3,
            balance = 8, current_bet = 4, balance_history = [10, 11, 10, 8], rounds_played = 3\<rparr>,
           constant_rng (9/10)) \<and>
   list_all (\<lambda>x. 0 \<le> x) [10, 11, 10, 8 :: real]"
proof -
  have h: "0 \<le> initial_balance (Martingale 10 1 (1/2) 3)"
    "0 \<le> initial_bet (Martingale 10 1 (1/2) 3)"
    by (simp_all add: Martingale_fields)
  show ?thesis
    using balance_never_negative [OF rounding_double_round h, where r = "list_rng [0] (9/10)"
        and n = "Suc (Suc 0)"
        and m' = "\<lparr>initial_balance = 10, initial_bet = 1, win_prob = 1/2, table_limit = 3,
              balance = 8, current_bet = 4, balance_history = [10, 11, 10, 8], rounds_played = 3\<rparr>"
        and r' = "constant_rng (9/10)"]
    by (simp add: run_defs)
qed

text \<open>
  C10: if the initial bet exceeds the initial balance or the table limit, simulate on a
  freshly constructed or reset process returns at once, with no round played and the
  history holding the initial balance alone. Whatever the parameters are, the history has
  at least one entry after construction, in every state of a run and in the returned
  object.
\<close>

theorem simulate_degenerate:
  "(ib < ibet \<or> tlim < ibet \<longrightarrow>
      simulate rnd (Martingale ib ibet wp tlim) r = Some (Martingale ib ibet wp tlim, r) \<and>
      rounds_played (Martingale ib ibet wp tlim) = 0 \<and>
      balance_history (Martingale ib ibet wp tlim) = [ib]) \<and>
   (initial_balance m < initial_bet m \<or> table_limit m < initial_bet m \<longrightarrow>
      simulate rnd (reset m) r = Some (reset m, r) \<and>
      rounds_played (reset m) = 0 \<and>
      balance_history (reset m) = [initial_balance m]) \<and>
   1 \<le> length (balance_history (Martingale ib ibet wp tlim)) \<and>
   1 \<le> length (balance_history (fst (run_rounds rnd n (reset m, r)))) \<and>
   (simulate rnd (reset m) r = Some (m', r') \<longrightarrow> 1 \<le> length (balance_history m'))"
proof (intro conjI impI)
  assume a: "ib < ibet \<or> tlim < ibet"
  then have "\<not> loop_cond (Martingale ib ibet wp tlim)"
    by (auto simp add: loop_cond_def Martingale_fields)
  then show "simulate rnd (Martingale ib ibet wp tlim) r = Some (Martingale ib ibet wp tlim, r)"
    by (subst simulate_unfold) simp
  show "rounds_played (Martingale ib ibet wp tlim) = 0"
    and "balance_history (Martingale ib ibet wp tlim) = [ib]"
    by (simp_all add: Martingale_fields)
next
  assume a: "initial_balance m < initial_bet m \<or> table_limit m < initial_bet m"
  then have "\<not> loop_cond (reset m)"
    by (auto simp add: loop_cond_def reset_fields)
  then show "simulate rnd (reset m) r = Some (reset m, r)"
    by (subst simulate_unfold) simp
  show "rounds_played (reset m) = 0"
    and "balance_history (reset m) = [initial_balance m]"
    by (simp_all add: reset_fields)
next
  show "1 \<le> length (balance_history (Martingale ib ibet wp tlim))"
    by (simp add: Martingale_fields)
  show "1 \<le> length (balance_history (fst (run_rounds rnd n (reset m, r))))"
    by (simp add: history_length_run_rounds del: run_rounds.simps(2))
next
  assume "simulate rnd (reset m) r = Some (m', r')"
  then obtain k where "(m', r') = run_rounds rnd k (reset m, r)"
    using simulate_Some_stopped [of rnd "reset m" r "(m', r')"] by blast
  then have m': "m' = fst (run_rounds rnd k (reset m, r))" by (metis fst_conv)
  show "1 \<le> length (balance_history m')"
    unfolding m' by (simp add: history_length_run_rounds del: run_rounds.simps(2))
qed

theorem simulate_degenerate_witness:
  "((5::real) < 10 \<or> (3::real) < 10) \<and>
   simulate double_round (Martingale 5 10 (1/2) 3) (constant_rng 0) =
     Some (Martingale 5 10 (1/2) 3, constant_rng 0) \<and>
   rounds_played (Martingale 5 10 (1/2) 3) = 0 \<and>
   balance_history (Martingale 5 10 (1/2) 3) = [5] \<and>
   (initial_balance (Martingale 5 10 (1/2) 3) < initial_bet (Martingale 5 10 (1/2) 3) \<or>
    table_limit (Martingale 5 10 (1/2) 3) < initial_bet (Martingale 5 10 (1/2) 3)) \<and>
   simulate double_round (reset (Martingale 5 10 (1/2) 3)) (constant_rng 0) =
     Some (reset (Martingale 5 10 (1/2) 3), constant_rng 0) \<and>
   1 \<le> length (balance_history (Martingale 5 10 (1/2) 3))"
  using simulate_degenerate [where rnd = double_round and ib = 5 and ibet = 10 and wp = "1/2"
      and tlim = 3
      and m = "Martingale 5 10 (1/2) 3" and r = "constant_rng 0" and n = 0
      and m' = "reset (Martingale 5 10 (1/2) 3)" and r' = "constant_rng 0"]
  by (simp add: Martingale_fields)

end
